theory Spec2Isabelle
  imports Complex_Main "HOL-Library.Word" "HOL-Library.Log_Nat"
begin

unbundle bit_operations_syntax

section \<open>The solution table of \<open>main_wolfy.cc\<close>\<close>

text \<open>
  The program keeps a table of best known group-testing strategies, indexed by the
  number \<open>n\<close> of animals and the number \<open>d\<close> of wolves. This theory embeds the table, the
  base cases, the derivation rules and the two file formats, and proves what the
  specification says about them.

  The source computes on C++ \<open>int\<close>; the embedding computes on unbounded integers.
  The two agree as long as no value leaves the 32-bit range, which holds for every
  table the program can build: a strategy for \<open>n\<close> animals owns rows of \<open>n\<close> characters.
  The one place where a fixed width decides the result, the 64-bit column words of the
  packed file format, is modelled on \<open>64 word\<close>.
\<close>

subsection \<open>Failures\<close>

text \<open>
  Every \<open>assert\<close> of the source is a constructor of its own; an uncaught exception and
  a step the language leaves undefined are values too.
\<close>

datatype error =
    AssertKeyRange          \<comment> \<open>\<open>assert(0 <= n)\<close>, \<open>assert(0 <= d && d <= n)\<close>\<close>
  | AssertGuaranteedBest    \<comment> \<open>"found something better than the guaranteed best"\<close>
  | AssertOverwritten       \<comment> \<open>\<open>assert(overwritten)\<close>\<close>
  | AssertMostTested        \<comment> \<open>\<open>assert(most_tested_count >= 2)\<close>\<close>
  | AssertMalformedHeader   \<comment> \<open>"input file contained malformed lines"\<close>
  | AssertEmathgroupWord    \<comment> \<open>\<open>assert(word == "emathgroup")\<close>\<close>
  | AssertMalformedToken    \<comment> \<open>"emathgroup format contained malformed lines"\<close>
  | AssertBitsRange         \<comment> \<open>\<open>assert(0 <= bits && bits < (1uLL << t))\<close>\<close>
  | AssertRowLength         \<comment> \<open>"input file contained malformed solution"\<close>
  | AssertAfterFirstGrid    \<comment> \<open>"input file contained malformed lines after the first grid"\<close>
  | FailedToOpen            \<comment> \<open>\<open>std::runtime_error("Failed to open solution file")\<close>, never caught\<close>
  | LengthError             \<comment> \<open>\<open>std::length_error\<close>, never caught\<close>
  | UndefinedBehaviour      \<comment> \<open>an out-of-range read, a shift by the width or more, a conversion that overflows\<close>

subsection \<open>Strategies\<close>

datatype GuaranteedBest = GB_Yes | GB_No
datatype BelongsInFile = BF_Yes | BF_No

text \<open>
  \<open>Strategy::tests\<close> is a closure that builds the rows when called. The closures of the
  source read nothing that changes after the strategy is built, so the field holds what a
  call returns: the rows, or the failure the call runs into.
\<close>

record Strategy =
  tests :: "error + string list"
  t :: int
  guaranteed_best :: GuaranteedBest
  belongs_in_file :: BelongsInFile

definition isBetterThan :: "Strategy \<Rightarrow> Strategy \<Rightarrow> bool" where
  "isBetterThan lhs rhs =
     (if t lhs \<noteq> t rhs then t lhs < t rhs
      else if guaranteed_best lhs \<noteq> guaranteed_best rhs then guaranteed_best lhs = GB_Yes
      else False)"

definition empty_strategy :: Strategy where
  "empty_strategy =
     \<lparr>tests = Inr [], t = 0, guaranteed_best = GB_Yes, belongs_in_file = BF_No\<rparr>"

text \<open>
  \<open>worst_case_strategy\<close>: row \<open>i\<close>, for \<open>i < n - 1\<close>, is \<open>n\<close> dots with a \<open>1\<close> at \<open>i\<close>. The
  loop does not run for \<open>n \<le> 1\<close>, and then no string is built.
\<close>

definition worst_case_tests :: "int \<Rightarrow> string list" where
  "worst_case_tests n =
     map (\<lambda>i. (replicate (nat n) CHR ''.'')[i := CHR ''1'']) [0 ..< nat (n - 1)]"

definition worst_case_strategy :: "int \<Rightarrow> GuaranteedBest \<Rightarrow> Strategy" where
  "worst_case_strategy n gb =
     \<lparr>tests = Inr (worst_case_tests n), t = n - 1, guaranteed_best = gb,
      belongs_in_file = BF_No\<rparr>"

subsection \<open>The table and its update\<close>

text \<open>
  \<open>struct ND\<close> is the pair \<open>(n, d)\<close>; \<open>std::map<ND, std::shared_ptr<Strategy>>\<close> is a
  partial map. A candidate handed to \<open>overwrite_if_better\<close> is an object of its own in
  every call of the source, so setting its \<open>belongs_in_file\<close> is seen through the table
  only.
\<close>

type_synonym ND = "int \<times> int"
type_synonym table = "ND \<rightharpoonup> Strategy"

definition overwrite_if_better ::
  "table \<Rightarrow> int \<Rightarrow> int \<Rightarrow> Strategy \<Rightarrow> error + (table \<times> bool)" where
  "overwrite_if_better m n d strategy =
     (if \<not> 0 \<le> n then Inl AssertKeyRange
      else if \<not> (0 \<le> d \<and> d \<le> n) then Inl AssertKeyRange
      else case m (n, d) of
        None \<Rightarrow> Inr (m, False)
      | Some cur \<Rightarrow>
          if isBetterThan strategy cur then
            if guaranteed_best cur \<noteq> GB_No then Inl AssertGuaranteedBest
            else Inr (m((n, d) \<mapsto>
                        (if belongs_in_file cur = BF_Yes
                         then strategy\<lparr>belongs_in_file := BF_Yes\<rparr> else strategy)),
                      True)
          else Inr (m, False))"

text \<open>\<open>std::map::insert\<close> leaves an entry that is already there.\<close>

definition map_insert :: "table \<Rightarrow> ND \<Rightarrow> Strategy \<Rightarrow> table" where
  "map_insert m k s = (case m k of None \<Rightarrow> m(k \<mapsto> s) | Some _ \<Rightarrow> m)"

definition preserve_from_file :: "table \<Rightarrow> int \<Rightarrow> int \<Rightarrow> Strategy \<Rightarrow> error + table" where
  "preserve_from_file m n d strategy =
     (case overwrite_if_better (map_insert m (n, d) (worst_case_strategy n GB_No)) n d strategy of
        Inl e \<Rightarrow> Inl e
      | Inr (m', overwritten) \<Rightarrow> if overwritten then Inr m' else Inl AssertOverwritten)"

text \<open>A sequence of table updates, stopped by the first failing one.\<close>

fun overwrite_all :: "table \<Rightarrow> (int \<times> int \<times> Strategy) list \<Rightarrow> error + table" where
  "overwrite_all m [] = Inr m"
| "overwrite_all m ((n, d, strategy) # us) =
     (case overwrite_if_better m n d strategy of
        Inl e \<Rightarrow> Inl e
      | Inr (m', _) \<Rightarrow> overwrite_all m' us)"


section \<open>The table update\<close>

lemma isBetterThan_iff:
  "isBetterThan a b \<longleftrightarrow>
     t a < t b \<or> (t a = t b \<and> guaranteed_best a = GB_Yes \<and> guaranteed_best b = GB_No)"
  by (cases "guaranteed_best a"; cases "guaranteed_best b") (auto simp: isBetterThan_def)

lemma isBetterThan_irrefl: "\<not> isBetterThan a a"
  by (simp add: isBetterThan_def)

lemma overwrite_if_better_cases:
  assumes "overwrite_if_better m n d s = Inr (m', b)"
  shows "0 \<le> d \<and> d \<le> n \<and>
         (if b
          then \<exists>cur. m (n, d) = Some cur \<and> isBetterThan s cur \<and> guaranteed_best cur = GB_No \<and>
                 m' = m((n, d) \<mapsto> (if belongs_in_file cur = BF_Yes
                                     then s\<lparr>belongs_in_file := BF_Yes\<rparr> else s))
          else m' = m)"
  using assms
  by (auto simp: overwrite_if_better_def split: if_splits option.splits)

lemma overwrite_if_better_entry:
  assumes "overwrite_if_better m n d s = Inr (m', b)" and "m k = Some e"
  shows "\<exists>e'. m' k = Some e' \<and> t e' \<le> t e \<and> (guaranteed_best e = GB_Yes \<longrightarrow> e' = e)"
proof (cases b)
  case False
  with overwrite_if_better_cases [OF assms(1)] assms(2) show ?thesis by simp
next
  case True
  with overwrite_if_better_cases [OF assms(1)] obtain cur where cur:
    "m (n, d) = Some cur" "isBetterThan s cur" "guaranteed_best cur = GB_No"
    "m' = m((n, d) \<mapsto> (if belongs_in_file cur = BF_Yes
                        then s\<lparr>belongs_in_file := BF_Yes\<rparr> else s))"
    by auto
  show ?thesis
  proof (cases "k = (n, d)")
    case True
    with cur assms(2) have "e = cur" by simp
    with cur True show ?thesis by (auto simp: isBetterThan_iff)
  next
    case False
    with cur assms(2) show ?thesis by simp
  qed
qed

lemma overwrite_if_better_dom:
  "overwrite_if_better m n d s = Inr (m', b) \<Longrightarrow> dom m' = dom m"
  by (drule overwrite_if_better_cases) (auto split: if_splits)

lemma overwrite_all_entry:
  "overwrite_all m us = Inr m' \<Longrightarrow> m k = Some e \<Longrightarrow>
     \<exists>e'. m' k = Some e' \<and> t e' \<le> t e \<and> (guaranteed_best e = GB_Yes \<longrightarrow> e' = e)"
proof (induction us arbitrary: m e)
  case Nil
  then show ?case by simp
next
  case (Cons u us)
  obtain n d s where u: "u = (n, d, s)" by (cases u)
  from Cons.prems(1) u obtain m1 b where
    step: "overwrite_if_better m n d s = Inr (m1, b)" and rest: "overwrite_all m1 us = Inr m'"
    by (auto split: sum.splits)
  from overwrite_if_better_entry [OF step Cons.prems(2)] obtain e1 where
    e1: "m1 k = Some e1" "t e1 \<le> t e" "guaranteed_best e = GB_Yes \<longrightarrow> e1 = e"
    by blast
  from Cons.IH [OF rest e1(1)] obtain e' where
    e': "m' k = Some e'" "t e' \<le> t e1" "guaranteed_best e1 = GB_Yes \<longrightarrow> e' = e1"
    by blast
  from e1 e' show ?case by auto
qed

text \<open>
  Claim C1, as the code has it. For a key with \<open>0 \<le> d \<le> n\<close>: with no entry under the key
  the table is returned unchanged and \<open>false\<close> is reported. With an entry \<open>cur\<close>, the
  candidate is better exactly when its test count is smaller, or the counts are equal
  and the candidate alone is guaranteed best. A candidate that is not better leaves the
  table unchanged. A better candidate replaces an entry that is not guaranteed best,
  and takes over \<open>belongs_in_file\<close> when the replaced entry had it; a better candidate
  meeting a guaranteed-best entry is not installed: the update stops at the assertion.
\<close>

theorem overwrite_if_better_spec:
  assumes "0 \<le> d" and "d \<le> n"
  shows "(m (n, d) = None \<longrightarrow> overwrite_if_better m n d s = Inr (m, False)) \<and>
         (\<forall>cur. m (n, d) = Some cur \<longrightarrow>
            (isBetterThan s cur \<longleftrightarrow>
               t s < t cur \<or>
               (t s = t cur \<and> guaranteed_best s = GB_Yes \<and> guaranteed_best cur = GB_No)) \<and>
            (\<not> isBetterThan s cur \<longrightarrow> overwrite_if_better m n d s = Inr (m, False)) \<and>
            (isBetterThan s cur \<and> guaranteed_best cur = GB_No \<longrightarrow>
               overwrite_if_better m n d s =
                 Inr (m((n, d) \<mapsto> s\<lparr>belongs_in_file :=
                        (if belongs_in_file cur = BF_Yes then BF_Yes else belongs_in_file s)\<rparr>),
                      True)) \<and>
            (isBetterThan s cur \<and> guaranteed_best cur = GB_Yes \<longrightarrow>
               overwrite_if_better m n d s = Inl AssertGuaranteedBest))"
  using assms
  by (auto simp: overwrite_if_better_def isBetterThan_iff)

text \<open>
  An entry of a key in range, with a candidate for it that has fewer tests: the candidate
  is better, and the table is not updated, since the entry is guaranteed best.
\<close>

theorem overwrite_if_better_counterexample:
  "[(3, 1) \<mapsto> \<lparr>tests = Inr [''.1.'', ''..1''], t = 2, guaranteed_best = GB_Yes,
                 belongs_in_file = BF_No\<rparr>] (3, 1) =
     Some \<lparr>tests = Inr [''.1.'', ''..1''], t = 2, guaranteed_best = GB_Yes,
           belongs_in_file = BF_No\<rparr> \<and>
   isBetterThan
     \<lparr>tests = Inr [''.11''], t = 1, guaranteed_best = GB_No, belongs_in_file = BF_No\<rparr>
     \<lparr>tests = Inr [''.1.'', ''..1''], t = 2, guaranteed_best = GB_Yes,
      belongs_in_file = BF_No\<rparr> \<and>
   overwrite_if_better
     [(3, 1) \<mapsto> \<lparr>tests = Inr [''.1.'', ''..1''], t = 2, guaranteed_best = GB_Yes,
                   belongs_in_file = BF_No\<rparr>]
     3 1 \<lparr>tests = Inr [''.11''], t = 1, guaranteed_best = GB_No, belongs_in_file = BF_No\<rparr> =
   Inl AssertGuaranteedBest"
  by (simp add: overwrite_if_better_def isBetterThan_def)

theorem overwrite_if_better_spec_witness:
  "(0::int) \<le> 2 \<and> (2::int) \<le> 4 \<and>
   overwrite_if_better Map.empty 4 2
     \<lparr>tests = Inr [''11..'', ''.11.''], t = 2, guaranteed_best = GB_No,
      belongs_in_file = BF_No\<rparr> = Inr (Map.empty, False) \<and>
   overwrite_if_better
     [(4, 2) \<mapsto> (worst_case_strategy 4 GB_No)\<lparr>belongs_in_file := BF_Yes\<rparr>] 4 2
     \<lparr>tests = Inr [''11..'', ''.11.''], t = 2, guaranteed_best = GB_No,
      belongs_in_file = BF_No\<rparr> =
   Inr ([(4, 2) \<mapsto> \<lparr>tests = Inr [''11..'', ''.11.''], t = 2, guaranteed_best = GB_No,
                       belongs_in_file = BF_Yes\<rparr>], True) \<and>
   overwrite_if_better
     [(4, 2) \<mapsto> \<lparr>tests = Inr [''11..'', ''.11.''], t = 2, guaranteed_best = GB_No,
                   belongs_in_file = BF_Yes\<rparr>] 4 2 (worst_case_strategy 4 GB_No) =
   Inr ([(4, 2) \<mapsto> \<lparr>tests = Inr [''11..'', ''.11.''], t = 2, guaranteed_best = GB_No,
                       belongs_in_file = BF_Yes\<rparr>], False)"
  using overwrite_if_better_spec [of 2 4 Map.empty
      "\<lparr>tests = Inr [''11..'', ''.11.''], t = 2, guaranteed_best = GB_No,
        belongs_in_file = BF_No\<rparr>"]
    overwrite_if_better_spec [of 2 4
      "[(4, 2) \<mapsto> (worst_case_strategy 4 GB_No)\<lparr>belongs_in_file := BF_Yes\<rparr>]"
      "\<lparr>tests = Inr [''11..'', ''.11.''], t = 2, guaranteed_best = GB_No,
        belongs_in_file = BF_No\<rparr>"]
    overwrite_if_better_spec [of 2 4
      "[(4, 2) \<mapsto> \<lparr>tests = Inr [''11..'', ''.11.''], t = 2, guaranteed_best = GB_No,
                     belongs_in_file = BF_Yes\<rparr>]"
      "worst_case_strategy 4 GB_No"]
  by (simp add: isBetterThan_def worst_case_strategy_def)

text \<open>
  Claim C2. Along every sequence of updates that runs to its end, each key that had an
  entry still has one, the test count of the entry has not grown, and an entry that was
  guaranteed best is the entry it was. An update of a key in range whose candidate is
  better than a guaranteed-best entry fails at the assertion, and so does every sequence
  that starts with it.
\<close>

theorem dominance_monotone:
  "(overwrite_all m us = Inr m' \<longrightarrow>
      (\<forall>k e. m k = Some e \<longrightarrow>
         (\<exists>e'. m' k = Some e' \<and> t e' \<le> t e \<and> (guaranteed_best e = GB_Yes \<longrightarrow> e' = e)))) \<and>
   (0 \<le> d \<and> d \<le> n \<and> m (n, d) = Some cur \<and> guaranteed_best cur = GB_Yes \<and>
    isBetterThan s cur \<longrightarrow>
      overwrite_if_better m n d s = Inl AssertGuaranteedBest \<and>
      overwrite_all m ((n, d, s) # us) = Inl AssertGuaranteedBest)"
proof (intro conjI impI allI)
  fix k e
  assume "overwrite_all m us = Inr m'" and "m k = Some e"
  then show "\<exists>e'. m' k = Some e' \<and> t e' \<le> t e \<and> (guaranteed_best e = GB_Yes \<longrightarrow> e' = e)"
    by (rule overwrite_all_entry)
next
  assume a: "0 \<le> d \<and> d \<le> n \<and> m (n, d) = Some cur \<and> guaranteed_best cur = GB_Yes \<and>
    isBetterThan s cur"
  then show "overwrite_if_better m n d s = Inl AssertGuaranteedBest"
    by (simp add: overwrite_if_better_def)
  then show "overwrite_all m ((n, d, s) # us) = Inl AssertGuaranteedBest"
    by simp
qed

theorem dominance_monotone_witness:
  "overwrite_all
     [(4, 2) \<mapsto> worst_case_strategy 4 GB_No, (3, 1) \<mapsto> worst_case_strategy 3 GB_Yes]
     [(4, 2, \<lparr>tests = Inr [''11..'', ''.11.''], t = 2, guaranteed_best = GB_No,
              belongs_in_file = BF_No\<rparr>),
      (3, 1, worst_case_strategy 3 GB_No)] =
   Inr [(4, 2) \<mapsto> \<lparr>tests = Inr [''11..'', ''.11.''], t = 2, guaranteed_best = GB_No,
                      belongs_in_file = BF_No\<rparr>,
        (3, 1) \<mapsto> worst_case_strategy 3 GB_Yes] \<and>
   (\<exists>e'. [(4, 2) \<mapsto> \<lparr>tests = Inr [''11..'', ''.11.''], t = 2, guaranteed_best = GB_No,
                        belongs_in_file = BF_No\<rparr>,
          (3, 1) \<mapsto> worst_case_strategy 3 GB_Yes] (4, 2) = Some e' \<and>
         t e' \<le> t (worst_case_strategy 4 GB_No)) \<and>
   overwrite_all
     [(4, 2) \<mapsto> worst_case_strategy 4 GB_No, (3, 1) \<mapsto> worst_case_strategy 3 GB_Yes]
     [(3, 1, \<lparr>tests = Inr [''.11''], t = 1, guaranteed_best = GB_No,
              belongs_in_file = BF_No\<rparr>),
      (4, 2, worst_case_strategy 4 GB_No)] = Inl AssertGuaranteedBest"
  using dominance_monotone [of
      "[(4, 2) \<mapsto> worst_case_strategy 4 GB_No, (3, 1) \<mapsto> worst_case_strategy 3 GB_Yes]"
      "[(4, 2, \<lparr>tests = Inr [''11..'', ''.11.''], t = 2, guaranteed_best = GB_No,
               belongs_in_file = BF_No\<rparr>),
        (3, 1, worst_case_strategy 3 GB_No)]"
      "[(4, 2) \<mapsto> \<lparr>tests = Inr [''11..'', ''.11.''], t = 2, guaranteed_best = GB_No,
                      belongs_in_file = BF_No\<rparr>,
        (3, 1) \<mapsto> worst_case_strategy 3 GB_Yes]"
      1 3 "worst_case_strategy 3 GB_Yes"
      "\<lparr>tests = Inr [''.11''], t = 1, guaranteed_best = GB_No, belongs_in_file = BF_No\<rparr>"]
  by (simp add: overwrite_if_better_def isBetterThan_def worst_case_strategy_def
      fun_upd_twist)

text \<open>
  Claim C10. \<open>preserve_from_file\<close> compares the loaded strategy with the entry of its
  key, or with the worst-case strategy that it inserts when the key has none. A loaded
  strategy that is not better than that entry, a tie included, fails
  \<open>assert(overwritten)\<close>; a better one is installed when the entry is not guaranteed
  best, and fails the assertion of the update when it is.
\<close>

theorem preserve_from_file_requires_better:
  assumes "0 \<le> d" and "d \<le> n"
  shows "let cur = (case m (n, d) of None \<Rightarrow> worst_case_strategy n GB_No | Some e \<Rightarrow> e) in
     (\<not> isBetterThan s cur \<longrightarrow> preserve_from_file m n d s = Inl AssertOverwritten) \<and>
     (isBetterThan s cur \<and> guaranteed_best cur = GB_Yes \<longrightarrow>
        preserve_from_file m n d s = Inl AssertGuaranteedBest) \<and>
     (isBetterThan s cur \<and> guaranteed_best cur = GB_No \<longrightarrow>
        preserve_from_file m n d s =
          Inr (m((n, d) \<mapsto> s\<lparr>belongs_in_file :=
                 (if belongs_in_file cur = BF_Yes then BF_Yes else belongs_in_file s)\<rparr>)))"
  using assms
  by (cases "m (n, d)")
    (auto simp: preserve_from_file_def map_insert_def overwrite_if_better_def Let_def
      worst_case_strategy_def)

theorem preserve_from_file_requires_better_witness:
  "(0::int) \<le> 3 \<and> (3::int) \<le> 6 \<and>
   preserve_from_file [(6, 3) \<mapsto> worst_case_strategy 6 GB_Yes] 6 3
     ((worst_case_strategy 6 GB_Yes)\<lparr>belongs_in_file := BF_Yes\<rparr>) = Inl AssertOverwritten \<and>
   preserve_from_file Map.empty 6 2
     \<lparr>tests = Inr [''1111..'', ''11..11'', ''1.1.1.'', ''.11..1''], t = 4,
      guaranteed_best = GB_No, belongs_in_file = BF_Yes\<rparr> =
   Inr [(6, 2) \<mapsto> \<lparr>tests = Inr [''1111..'', ''11..11'', ''1.1.1.'', ''.11..1''], t = 4,
                      guaranteed_best = GB_No, belongs_in_file = BF_Yes\<rparr>] \<and>
   preserve_from_file [(6, 3) \<mapsto> worst_case_strategy 6 GB_Yes] 6 3
     \<lparr>tests = Inr [''1111..'', ''11..11'', ''1.1.1.'', ''.11..1''], t = 4,
      guaranteed_best = GB_No, belongs_in_file = BF_Yes\<rparr> = Inl AssertGuaranteedBest"
  using preserve_from_file_requires_better [of 3 6
      "[(6, 3) \<mapsto> worst_case_strategy 6 GB_Yes]"
      "(worst_case_strategy 6 GB_Yes)\<lparr>belongs_in_file := BF_Yes\<rparr>"]
    preserve_from_file_requires_better [of 2 6 Map.empty
      "\<lparr>tests = Inr [''1111..'', ''11..11'', ''1.1.1.'', ''.11..1''], t = 4,
        guaranteed_best = GB_No, belongs_in_file = BF_Yes\<rparr>"]
    preserve_from_file_requires_better [of 3 6
      "[(6, 3) \<mapsto> worst_case_strategy 6 GB_Yes]"
      "\<lparr>tests = Inr [''1111..'', ''11..11'', ''1.1.1.'', ''.11..1''], t = 4,
        guaranteed_best = GB_No, belongs_in_file = BF_Yes\<rparr>"]
  by (simp add: isBetterThan_def worst_case_strategy_def)


section \<open>Base cases\<close>

text \<open>
  \<open>perfect_strategy_for_one_wolf\<close>: one row for each \<open>bit = 1, 2, 4, \<dots>\<close> below \<open>n\<close>; the
  row has a \<open>1\<close> at the animals \<open>i\<close> with \<open>i & bit\<close> set. The loop starts at \<open>bit = 1\<close>
  and doubles, so \<open>bit\<close> is positive throughout.
\<close>

definition one_wolf_row :: "int \<Rightarrow> int \<Rightarrow> string" where
  "one_wolf_row n b = map (\<lambda>i. if (int i AND b) \<noteq> 0 then CHR ''1'' else CHR ''.'') [0 ..< nat n]"

function one_wolf_loop :: "int \<Rightarrow> int \<Rightarrow> string list" where
  "one_wolf_loop n b = (if 0 < b \<and> b < n then one_wolf_row n b # one_wolf_loop n (2 * b) else [])"
  by pat_completeness auto
termination
  by (relation "measure (\<lambda>(n, b). nat (n - b))") auto

declare one_wolf_loop.simps [simp del]

definition perfect_strategy_for_one_wolf :: "int \<Rightarrow> Strategy" where
  "perfect_strategy_for_one_wolf n =
     (let rows = one_wolf_loop n 1 in
      \<lparr>tests = Inr rows, t = int (length rows), guaranteed_best = GB_Yes, belongs_in_file = BF_No\<rparr>)"

text \<open>
  \<open>add_easy_solutions\<close>: \<open>n\<close> runs from \<open>0\<close> to \<open>max_n\<close> and \<open>d\<close> from \<open>0\<close> to \<open>n\<close>; \<open>n / 2\<close>
  is the division of C++ on a non-negative \<open>int\<close>, which rounds down.
\<close>

definition add_easy_solutions :: "table \<Rightarrow> int \<Rightarrow> table" where
  "add_easy_solutions m max_n =
     foldl (\<lambda>m n. foldl (\<lambda>m d.
         map_insert m (n, d)
           (if d = 0 \<or> d = n then empty_strategy
            else if d = 1 then perfect_strategy_for_one_wolf n
            else if d \<ge> n div 2 then worst_case_strategy n GB_Yes
            else worst_case_strategy n GB_No)) m [0 .. n]) m [0 .. max_n]"


lemma one_wolf_loop_length:
  "b = 2 ^ k \<Longrightarrow> length (one_wolf_loop n b) = ceillog2 (nat n) - k"
proof (induction n b arbitrary: k rule: one_wolf_loop.induct)
  case (1 n b)
  have bpos: "0 < b" using 1(2) by simp
  show ?case
  proof (cases "b < n")
    case True
    with bpos have npos: "0 < nat n" by simp
    from True 1(2) npos have "int (2 ^ k) < int (nat n)" by simp
    then have "(2::nat) ^ k < nat n" by (simp only: of_nat_less_iff)
    then have "(2::nat) ^ Suc k < 2 * nat n" by simp
    then have ge: "Suc k \<le> ceillog2 (nat n)"
      using ceillog2_ge_iff [OF npos] by blast
    have "length (one_wolf_loop n (2 * b)) = ceillog2 (nat n) - Suc k"
      using "1.IH" [of "Suc k"] True bpos 1(2) by simp
    with ge True bpos show ?thesis
      by (simp add: one_wolf_loop.simps [of n b])
  next
    case False
    have "ceillog2 (nat n) \<le> k"
    proof (cases "0 < nat n")
      case True
      from False 1(2) have "int (nat n) \<le> int (2 ^ k)" by simp
      then have "nat n \<le> 2 ^ k" by (simp only: of_nat_le_iff)
      then show ?thesis using ceillog2_le_iff [OF True] by blast
    next
      case False
      then show ?thesis by simp
    qed
    with False show ?thesis
      by (simp add: one_wolf_loop.simps [of n b])
  qed
qed

lemma one_wolf_loop_nth:
  "b = 2 ^ k \<Longrightarrow> r < length (one_wolf_loop n b) \<Longrightarrow>
     one_wolf_loop n b ! r = one_wolf_row n (2 ^ (k + r))"
proof (induction n b arbitrary: k r rule: one_wolf_loop.induct)
  case (1 n b)
  have bpos: "0 < b" using 1(2) by simp
  from 1(3) have lt: "b < n"
    by (cases "b < n") (simp_all add: one_wolf_loop.simps [of n b])
  then have unfold: "one_wolf_loop n b = one_wolf_row n b # one_wolf_loop n (2 * b)"
    using bpos by (subst one_wolf_loop.simps) simp
  show ?case
  proof (cases r)
    case 0
    with unfold 1(2) show ?thesis by simp
  next
    case (Suc r')
    with 1(3) unfold have "r' < length (one_wolf_loop n (2 * b))" by simp
    with "1.IH" [of "Suc k" r'] lt bpos 1(2)
    have "one_wolf_loop n (2 * b) ! r' = one_wolf_row n (2 ^ (Suc k + r'))" by simp
    with Suc unfold show ?thesis by simp
  qed
qed

lemma one_wolf_row_nth:
  "i < nat n \<Longrightarrow> one_wolf_row n (2 ^ r) ! i = (if bit i r then CHR ''1'' else CHR ''.'')"
  by (simp add: one_wolf_row_def and_exp_eq_0_iff_not_bit bit_of_nat_iff_bit)

lemma length_one_wolf_row: "length (one_wolf_row n b) = nat n"
  by (simp add: one_wolf_row_def)

lemma worst_case_tests_length: "length (worst_case_tests n) = nat (n - 1)"
  by (simp add: worst_case_tests_def)

lemma worst_case_tests_nth:
  "r < nat (n - 1) \<Longrightarrow> length (worst_case_tests n ! r) = nat n \<and>
     (\<forall>i < nat n. worst_case_tests n ! r ! i = (if i = r then CHR ''1'' else CHR ''.''))"
  by (auto simp: worst_case_tests_def nth_list_update)


lemma foldl_insert_row:
  "foldl (\<lambda>m d. map_insert m (n, d) (f d)) m ds (n', d') =
     (case m (n', d') of
        Some e \<Rightarrow> Some e
      | None \<Rightarrow> if n' = n \<and> d' \<in> set ds then Some (f d') else None)"
  by (induction ds arbitrary: m) (auto simp: map_insert_def split: option.splits)

lemma foldl_insert_rows:
  "foldl (\<lambda>m n. foldl (\<lambda>m d. map_insert m (n, d) (f n d)) m [0 .. n]) m ns (n', d') =
     (case m (n', d') of
        Some e \<Rightarrow> Some e
      | None \<Rightarrow> if n' \<in> set ns \<and> 0 \<le> d' \<and> d' \<le> n' then Some (f n' d') else None)"
  by (induction ns arbitrary: m) (auto simp: foldl_insert_row split: option.splits)

lemma add_easy_solutions_lookup:
  "add_easy_solutions m max_n (n, d) =
     (case m (n, d) of
        Some e \<Rightarrow> Some e
      | None \<Rightarrow> if 0 \<le> d \<and> d \<le> n \<and> n \<le> max_n then
          Some (if d = 0 \<or> d = n then empty_strategy
            else if d = 1 then perfect_strategy_for_one_wolf n
            else if d \<ge> n div 2 then worst_case_strategy n GB_Yes
            else worst_case_strategy n GB_No) else None)"
  unfolding add_easy_solutions_def
  by (subst foldl_insert_rows) (auto split: option.splits)

text \<open>
  Claim C3, as the code has it. For \<open>0 \<le> d \<le> n \<le> max_n\<close> and a key not yet in the table,
  \<open>add_easy_solutions\<close> installs a strategy whose rows are there and whose test count is
  their number. For \<open>d = 0\<close> or \<open>d = n\<close> it has no rows and is guaranteed best. For \<open>d = 1\<close>
  it has \<open>ceillog2 n\<close> rows, is guaranteed best, and row \<open>r\<close> has a \<open>1\<close> at animal \<open>i\<close>
  exactly when bit \<open>r\<close> of \<open>i\<close> is set. For \<open>1 < d < n\<close> it has \<open>n - 1\<close> rows, row \<open>r\<close>
  testing animal \<open>r\<close> alone; it is guaranteed best exactly when \<open>d\<close> is at least the integer
  quotient \<open>n div 2\<close>, which is \<open>n / 2\<close> rounded down, and not guaranteed best exactly when \<open>d\<close>
  is below that quotient.
\<close>

theorem add_easy_solutions_base_cases:
  assumes "0 \<le> d" and "d \<le> n" and "n \<le> max_n" and "m (n, d) = None"
  shows "\<exists>s rows. add_easy_solutions m max_n (n, d) = Some s \<and> tests s = Inr rows \<and>
           t s = int (length rows) \<and> belongs_in_file s = BF_No \<and>
           (d = 0 \<or> d = n \<longrightarrow> t s = 0 \<and> rows = [] \<and> guaranteed_best s = GB_Yes) \<and>
           (d = 1 \<longrightarrow> t s = int (ceillog2 (nat n)) \<and> guaranteed_best s = GB_Yes \<and>
              (\<forall>r < length rows. length (rows ! r) = nat n \<and>
                 (\<forall>i < nat n. rows ! r ! i = (if bit i r then CHR ''1'' else CHR ''.'')))) \<and>
           (1 < d \<and> d < n \<longrightarrow> t s = n - 1 \<and>
              (\<forall>r < length rows. length (rows ! r) = nat n \<and>
                 (\<forall>i < nat n. rows ! r ! i = (if i = r then CHR ''1'' else CHR ''.''))) \<and>
              (guaranteed_best s = GB_Yes \<longleftrightarrow> n div 2 \<le> d) \<and>
              (guaranteed_best s = GB_No \<longleftrightarrow> d < n div 2))"
proof -
  consider (empty) "d = 0 \<or> d = n" | (one) "d = 1" "d \<noteq> n" | (worst) "1 < d" "d < n"
    using assms by linarith
  then show ?thesis
  proof cases
    case empty
    with assms show ?thesis
      by (auto simp: add_easy_solutions_lookup empty_strategy_def)
  next
    case one
    have len: "length (one_wolf_loop n 1) = ceillog2 (nat n)"
      using one_wolf_loop_length [of 1 0 n] by simp
    have rows: "length (one_wolf_loop n 1 ! r) = nat n \<and>
        (\<forall>i < nat n. one_wolf_loop n 1 ! r ! i = (if bit i r then CHR ''1'' else CHR ''.''))"
      if "r < length (one_wolf_loop n 1)" for r
      using one_wolf_loop_nth [of 1 0 r n] that
      by (simp add: length_one_wolf_row one_wolf_row_nth)
    from one assms len rows show ?thesis
      by (simp add: add_easy_solutions_lookup perfect_strategy_for_one_wolf_def Let_def)
  next
    case worst
    have "add_easy_solutions m max_n (n, d) =
        Some (worst_case_strategy n (if n div 2 \<le> d then GB_Yes else GB_No))"
      using worst assms by (simp add: add_easy_solutions_lookup)
    with worst show ?thesis
      using worst_case_tests_nth [of _ n]
      by (simp add: worst_case_strategy_def worst_case_tests_length)
  qed
qed


text \<open>
  For five animals and two wolves \<open>1 < 2 < 5 / 2\<close>, and the strategy installed is marked
  guaranteed best: the source compares \<open>d\<close> with \<open>n / 2\<close> computed on \<open>int\<close>, which is \<open>2\<close>.
\<close>

theorem add_easy_solutions_counterexample:
  "(1::real) < 2 \<and> (2::real) < 5 / 2 \<and> (5::int) div 2 = 2 \<and>
   add_easy_solutions Map.empty 5 (5, 2) = Some (worst_case_strategy 5 GB_Yes) \<and>
   guaranteed_best (worst_case_strategy 5 GB_Yes) = GB_Yes"
  by (simp add: add_easy_solutions_lookup worst_case_strategy_def)

lemma ceillog2_9: "ceillog2 9 = 4"
proof (rule antisym)
  show "ceillog2 9 \<le> 4" using ceillog2_le_iff [of 9 4] by simp
  show "4 \<le> ceillog2 9" using ceillog2_ge_iff [of 9 4] by simp
qed

theorem add_easy_solutions_base_cases_witness:
  "(\<exists>s. add_easy_solutions Map.empty 10 (5, 5) = Some s \<and> t s = 0 \<and> tests s = Inr [] \<and>
        guaranteed_best s = GB_Yes) \<and>
   (\<exists>s. add_easy_solutions Map.empty 10 (9, 1) = Some s \<and> t s = 4 \<and>
        guaranteed_best s = GB_Yes) \<and>
   (\<exists>s. add_easy_solutions Map.empty 10 (10, 5) = Some s \<and> t s = 9 \<and>
        guaranteed_best s = GB_Yes) \<and>
   (\<exists>s. add_easy_solutions Map.empty 10 (5, 2) = Some s \<and> t s = 4 \<and>
        guaranteed_best s = GB_Yes) \<and>
   (\<exists>s. add_easy_solutions Map.empty 10 (10, 3) = Some s \<and> t s = 9 \<and>
        guaranteed_best s = GB_No)"
  using add_easy_solutions_base_cases [of 5 5 10 Map.empty]
    add_easy_solutions_base_cases [of 1 9 10 Map.empty]
    add_easy_solutions_base_cases [of 5 10 10 Map.empty]
    add_easy_solutions_base_cases [of 2 5 10 Map.empty]
    add_easy_solutions_base_cases [of 3 10 10 Map.empty]
  by (simp add: ceillog2_9) blast


section \<open>The derivation engine\<close>

text \<open>
  \<open>test[i] == '1'\<close> on a \<open>std::string\<close>: the read at \<open>i = size()\<close> gives the terminating
  \<open>'\0'\<close>, which is not \<open>'1'\<close>; a read beyond that is undefined, and
  \<open>replace_most_tested_animal\<close> below reports it before it counts.
\<close>

definition tested :: "string \<Rightarrow> nat \<Rightarrow> bool" where
  "tested test i = (i < length test \<and> test ! i = CHR ''1'')"

text \<open>
  One round of the counting loop: \<open>counts[i] += (test[i] == '1')\<close> for every \<open>i < n\<close>.
\<close>

definition count_row :: "nat list \<Rightarrow> string \<Rightarrow> nat list" where
  "count_row counts test =
     map (\<lambda>i. counts ! i + (if tested test i then 1 else 0)) [0 ..< length counts]"

text \<open>
  \<open>std::max_element\<close> keeps the first of the greatest elements: it moves on only to a
  strictly greater one. On an empty range it returns \<open>end\<close>, which is \<open>begin\<close>: index \<open>0\<close>.
\<close>

fun max_element_from :: "nat list \<Rightarrow> nat \<Rightarrow> nat \<Rightarrow> nat \<Rightarrow> nat" where
  "max_element_from [] i largest v = largest"
| "max_element_from (x # xs) i largest v =
     (if v < x then max_element_from xs (Suc i) i x else max_element_from xs (Suc i) largest v)"

fun max_element :: "nat list \<Rightarrow> nat" where
  "max_element [] = 0"
| "max_element (x # xs) = max_element_from xs 1 0 x"

text \<open>
  \<open>test.erase(test.begin() + i)\<close>, for \<open>i\<close> inside the string.
\<close>

definition erase_at :: "nat \<Rightarrow> string \<Rightarrow> string" where
  "erase_at i test = take i test @ drop (Suc i) test"

text \<open>
  The result of \<open>replace_most_tested_animal\<close> is built by one call,
  \<open>std::make_shared<Strategy>(tests.size(), ..., [..., captured_tests = std::move(tests)]() ...)\<close>,
  whose first argument reads the vector \<open>tests\<close> and whose last argument moves it into the
  closure. The language does not say which argument is evaluated first: the compiler
  chooses. When the size is read first, it is the number of rows kept; when the capture
  is made first, the vector has been moved from and is empty, and the size read is \<open>0\<close>.
  The order is a parameter of the embedding.
\<close>

datatype argument_order = Size_First | Capture_First

text \<open>
  \<open>replace_most_tested_animal\<close> (lines 138 to 176). The undefined steps of the source are
  reported where it takes them: \<open>tests[0]\<close> of an empty vector, \<open>test[i]\<close> beyond the end
  of a row shorter than the first, \<open>counts[0]\<close> of an empty vector. The closure of the
  result erases column \<open>most_tested_idx\<close> from every row it kept, which is undefined for a
  row that has no such column; the failure is that of the call of \<open>tests()\<close>, not of the
  construction.
\<close>

definition replace_most_tested_animal ::
  "argument_order \<Rightarrow> Strategy \<Rightarrow> bool \<Rightarrow> error + Strategy" where
  "replace_most_tested_animal ao orig with_wolf =
     (case tests orig of
        Inl e \<Rightarrow> Inl e
      | Inr rows \<Rightarrow>
          if rows = [] then Inl UndefinedBehaviour
          else let n = length (hd rows) in
            if \<exists>test \<in> set rows. length test + 1 < n then Inl UndefinedBehaviour
            else if n = 0 then Inl UndefinedBehaviour
            else let counts = foldl count_row (replicate n 0) rows;
                     most_tested_idx = max_element counts;
                     most_tested_count = counts ! most_tested_idx in
              if \<not> 2 \<le> most_tested_count then Inl AssertMostTested
              else let kept = (if with_wolf
                               then filter (\<lambda>test. \<not> tested test most_tested_idx) rows
                               else rows) in
                Inr \<lparr>tests = (if \<exists>test \<in> set kept. length test \<le> most_tested_idx
                              then Inl UndefinedBehaviour
                              else Inr (map (erase_at most_tested_idx) kept)),
                     t = (case ao of Size_First \<Rightarrow> int (length kept) | Capture_First \<Rightarrow> 0),
                     guaranteed_best = GB_No, belongs_in_file = BF_No\<rparr>)"

text \<open>
  \<open>test_last_animal_individually\<close> (lines 121 to 136). \<open>std::string(n, '.')\<close> throws
  \<open>std::length_error\<close> for a negative \<open>n\<close>.
\<close>

definition test_last_animal_individually :: "int \<Rightarrow> Strategy \<Rightarrow> Strategy" where
  "test_last_animal_individually n orig =
     \<lparr>tests = (case tests orig of
                 Inl e \<Rightarrow> Inl e
               | Inr rows \<Rightarrow>
                   if n < 0 then Inl LengthError
                   else Inr (map (\<lambda>test. test @ ''.'') rows @
                             [replicate (nat n) CHR ''.'' @ ''1''])),
      t = t orig + 1, guaranteed_best = GB_No, belongs_in_file = BF_No\<rparr>"

text \<open>
  \<open>add_solutions_derived_from\<close> (lines 323 to 367) calls itself after every update that
  improved the table. Nothing in the source bounds the depth, so the embedding counts
  fuel: \<open>None\<close> is a run that needs more of it. The body is written over the recursive
  call \<open>rec\<close>, one definition for each \<open>if\<close> statement of the source.

  The parameter \<open>kv\<close> of the source is a reference. In the call from \<open>main\<close> it refers to a
  pair of another map, \<open>solutions_from_file\<close>, whose strategy never changes: \<open>ext = Some s\<close>.
  In the recursive calls it refers to the element \<open>*m.find(ND{n, d})\<close> of the table itself,
  so that \<open>strategy\<close> is whatever the table holds under \<open>(n, d)\<close> at the moment it is read:
  \<open>ext = None\<close>. The local \<open>t\<close> is read once, on entry. The order of evaluation \<open>ao\<close> is
  handed down to the two calls of \<open>replace_most_tested_animal\<close>.
\<close>

type_synonym cascade = "table \<Rightarrow> int \<Rightarrow> int \<Rightarrow> (error + table) option"

definition kv_second :: "table \<Rightarrow> ND \<Rightarrow> Strategy option \<Rightarrow> error + Strategy" where
  "kv_second m k ext =
     (case ext of
        Some s \<Rightarrow> Inr s
      | None \<Rightarrow> (case m k of Some s \<Rightarrow> Inr s | None \<Rightarrow> Inl UndefinedBehaviour))"

text \<open>
  Sequencing: a failure or a lack of fuel ends the run.
\<close>

definition and_then ::
  "(error + table) option \<Rightarrow> (table \<Rightarrow> (error + table) option) \<Rightarrow> (error + table) option" where
  "and_then r f = (case r of None \<Rightarrow> None | Some (Inl e) \<Rightarrow> Some (Inl e) | Some (Inr m) \<Rightarrow> f m)"

text \<open>
  \<open>if (overwrite_if_better(m, n, d, cand)) add_solutions_derived_from(m, *m.find(ND{n, d}));\<close>
\<close>

definition propose :: "cascade \<Rightarrow> table \<Rightarrow> int \<Rightarrow> int \<Rightarrow> Strategy \<Rightarrow> (error + table) option" where
  "propose rec m n d cand =
     (case overwrite_if_better m n d cand of
        Inl e \<Rightarrow> Some (Inl e)
      | Inr (m', better) \<Rightarrow> if better then rec m' n d else Some (Inr m'))"

text \<open>
  Lines 331 to 344: column deletion, with the most tested animal taken for a sheep
  (rule 1) and then, when \<open>d - 1 \<ge> 2\<close>, for a wolf (rule 2).
\<close>

definition rule_1_2 ::
  "argument_order \<Rightarrow> cascade \<Rightarrow> table \<Rightarrow> int \<Rightarrow> int \<Rightarrow> int \<Rightarrow> Strategy option \<Rightarrow> (error + table) option" where
  "rule_1_2 ao rec m n d tt ext =
     (if 2 \<le> d \<and> d < n \<and> tt < n - 1 then
        case kv_second m (n, d) ext of
          Inl e \<Rightarrow> Some (Inl e)
        | Inr strategy \<Rightarrow>
        case replace_most_tested_animal ao strategy False of
          Inl e \<Rightarrow> Some (Inl e)
        | Inr smaller_strategy \<Rightarrow>
        and_then (propose rec m (n - 1) d smaller_strategy) (\<lambda>m1.
          if d - 1 \<ge> 2 then
            case kv_second m1 (n, d) ext of
              Inl e \<Rightarrow> Some (Inl e)
            | Inr strategy \<Rightarrow>
            case replace_most_tested_animal ao strategy True of
              Inl e \<Rightarrow> Some (Inl e)
            | Inr smaller_strategy \<Rightarrow> propose rec m1 (n - 1) (d - 1) smaller_strategy
          else Some (Inr m1))
      else Some (Inr m))"

text \<open>
  Lines 345 to 356: a solution for \<open>(n, d)\<close> is offered to \<open>(n, d - 1)\<close>.
\<close>

definition rule_3 ::
  "cascade \<Rightarrow> table \<Rightarrow> int \<Rightarrow> int \<Rightarrow> int \<Rightarrow> Strategy option \<Rightarrow> (error + table) option" where
  "rule_3 rec m n d tt ext =
     (if 2 < d \<and> d < n - 1 \<and> tt < n - 1 then
        case kv_second m (n, d) ext of
          Inl e \<Rightarrow> Some (Inl e)
        | Inr strategy \<Rightarrow>
            propose rec m n (d - 1)
              \<lparr>tests = tests strategy, t = t strategy, guaranteed_best = GB_No,
               belongs_in_file = BF_No\<rparr>
      else Some (Inr m))"

text \<open>
  Lines 357 to 361: one more animal, tested alone.
\<close>

definition rule_4 ::
  "cascade \<Rightarrow> table \<Rightarrow> int \<Rightarrow> int \<Rightarrow> int \<Rightarrow> Strategy option \<Rightarrow> (error + table) option" where
  "rule_4 rec m n d tt ext =
     (if 2 \<le> d \<and> d < n \<and> tt < n - 1 then
        case kv_second m (n, d) ext of
          Inl e \<Rightarrow> Some (Inl e)
        | Inr strategy \<Rightarrow> propose rec m (n + 1) d (test_last_animal_individually n strategy)
      else Some (Inr m))"

text \<open>
  Lines 362 to 366: from a strategy with \<open>n - 1\<close> tests, the worst case for
  \<open>(n + 2, d + 1)\<close>. The test reads \<open>strategy->t\<close>, not the local \<open>t\<close>.
\<close>

definition rule_5 ::
  "cascade \<Rightarrow> table \<Rightarrow> int \<Rightarrow> int \<Rightarrow> Strategy option \<Rightarrow> (error + table) option" where
  "rule_5 rec m n d ext =
     (case kv_second m (n, d) ext of
        Inl e \<Rightarrow> Some (Inl e)
      | Inr strategy \<Rightarrow>
          if t strategy = n - 1 then
            propose rec m (n + 2) (d + 1) (worst_case_strategy (n + 2) (guaranteed_best strategy))
          else Some (Inr m))"

definition derive_from ::
  "argument_order \<Rightarrow> cascade \<Rightarrow> table \<Rightarrow> int \<Rightarrow> int \<Rightarrow> Strategy option \<Rightarrow> (error + table) option" where
  "derive_from ao rec m n d ext =
     (case kv_second m (n, d) ext of
        Inl e \<Rightarrow> Some (Inl e)
      | Inr strategy \<Rightarrow>
          let tt = t strategy in
          and_then (rule_1_2 ao rec m n d tt ext) (\<lambda>m1.
          and_then (rule_3 rec m1 n d tt ext) (\<lambda>m2.
          and_then (rule_4 rec m2 n d tt ext) (\<lambda>m3.
          rule_5 rec m3 n d ext))))"

fun add_solutions_derived_from ::
  "argument_order \<Rightarrow> nat \<Rightarrow> table \<Rightarrow> int \<Rightarrow> int \<Rightarrow> Strategy option \<Rightarrow> (error + table) option" where
  "add_solutions_derived_from ao 0 m n d ext = None"
| "add_solutions_derived_from ao (Suc fuel) m n d ext =
     derive_from ao (\<lambda>m' n' d'. add_solutions_derived_from ao fuel m' n' d' None) m n d ext"

subsection \<open>The cascade returns\<close>

text \<open>
  Termination. Every entry of a finite table has a weight, smaller for a better
  strategy; \<open>B\<close> bounds the test counts from below so that the weight is a natural
  number. The potential of a table is the sum of the weights of its entries.
\<close>

definition weight :: "int \<Rightarrow> Strategy \<Rightarrow> nat" where
  "weight B s = 2 * nat (t s + B) + (if guaranteed_best s = GB_No then 1 else 0)"

definition potential :: "int \<Rightarrow> table \<Rightarrow> nat" where
  "potential B m = (\<Sum>k \<in> dom m. weight B (the (m k)))"

definition bounded_below :: "int \<Rightarrow> table \<Rightarrow> bool" where
  "bounded_below B m = (\<forall>k s. m k = Some s \<longrightarrow> - B \<le> t s)"

lemma weight_better:
  assumes "isBetterThan c cur" and "- B \<le> t c"
  shows "weight B (c\<lparr>belongs_in_file := f\<rparr>) < weight B cur" and "weight B c < weight B cur"
  using assms by (auto simp: weight_def isBetterThan_iff)

lemma potential_update:
  assumes fin: "finite (dom m)" and k: "m k = Some cur"
  shows "potential B (m(k \<mapsto> s)) + weight B cur = potential B m + weight B s"
proof -
  have dom: "dom (m(k \<mapsto> s)) = dom m" using k by auto
  have kin: "k \<in> dom m" using k by auto
  have "potential B m = weight B cur + (\<Sum>j \<in> dom m - {k}. weight B (the (m j)))"
    unfolding potential_def using sum.remove [OF fin kin, of "\<lambda>j. weight B (the (m j))"] k
    by simp
  moreover have "potential B (m(k \<mapsto> s)) =
      weight B s + (\<Sum>j \<in> dom m - {k}. weight B (the ((m(k \<mapsto> s)) j)))"
    unfolding potential_def dom
    using sum.remove [OF fin kin, of "\<lambda>j. weight B (the ((m(k \<mapsto> s)) j))"] by simp
  moreover have "(\<Sum>j \<in> dom m - {k}. weight B (the ((m(k \<mapsto> s)) j))) =
      (\<Sum>j \<in> dom m - {k}. weight B (the (m j)))"
    by (rule sum.cong) auto
  ultimately show ?thesis by simp
qed

lemma overwrite_improves:
  assumes ow: "overwrite_if_better m n d c = Inr (m', True)"
    and fin: "finite (dom m)" and bb: "bounded_below B m" and c: "- B \<le> t c"
  shows "potential B m' < potential B m" and "bounded_below B m'" and "dom m' = dom m"
proof -
  from overwrite_if_better_cases [OF ow] obtain cur where cur:
    "m (n, d) = Some cur" "isBetterThan c cur"
    "m' = m((n, d) \<mapsto> (if belongs_in_file cur = BF_Yes
                        then c\<lparr>belongs_in_file := BF_Yes\<rparr> else c))"
    by auto
  let ?c = "if belongs_in_file cur = BF_Yes then c\<lparr>belongs_in_file := BF_Yes\<rparr> else c"
  have "weight B ?c < weight B cur"
    using weight_better [OF cur(2) c] by simp
  with potential_update [OF fin cur(1), of B ?c] cur(3)
  show "potential B m' < potential B m" by simp
  show "bounded_below B m'"
    using bb c cur(3) by (auto simp: bounded_below_def)
  show "dom m' = dom m" using overwrite_if_better_dom [OF ow] .
qed

text \<open>
  A call is settled when it returns, and a table it returns has the keys of the table
  it started from, the same lower bound, and no greater potential. A recursive call is
  good up to \<open>b\<close> when it is settled on every table of potential below \<open>b\<close>.
\<close>

definition settled :: "int \<Rightarrow> table \<Rightarrow> (error + table) option \<Rightarrow> bool" where
  "settled B m r = (\<exists>x. r = Some x \<and>
     (\<forall>m'. x = Inr m' \<longrightarrow> dom m' = dom m \<and> bounded_below B m' \<and> potential B m' \<le> potential B m))"

definition good :: "int \<Rightarrow> cascade \<Rightarrow> nat \<Rightarrow> bool" where
  "good B rec b = (\<forall>m n d. finite (dom m) \<and> bounded_below B m \<and> potential B m < b \<longrightarrow>
     settled B m (rec m n d))"

lemma settled_same: "bounded_below B m \<Longrightarrow> settled B m (Some (Inr m))"
  by (simp add: settled_def)

lemma settled_error: "settled B m (Some (Inl e))"
  by (simp add: settled_def)

lemma propose_settled:
  assumes g: "good B rec b" and fin: "finite (dom m)" and bb: "bounded_below B m"
    and le: "potential B m \<le> b" and c: "- B \<le> t c"
  shows "settled B m (propose rec m n d c)"
proof (cases "overwrite_if_better m n d c")
  case (Inl e)
  then show ?thesis by (simp add: propose_def settled_error)
next
  case (Inr p)
  obtain m' better where p: "p = (m', better)" by (cases p)
  show ?thesis
  proof (cases better)
    case False
    with Inr p overwrite_if_better_cases [of m n d c m' better] have "m' = m" by simp
    with Inr p False bb show ?thesis by (simp add: propose_def settled_same)
  next
    case True
    with Inr p have ow: "overwrite_if_better m n d c = Inr (m', True)" by simp
    note imp = overwrite_improves [OF ow fin bb c]
    from imp(1) le have "potential B m' < b" by simp
    with g imp fin have "settled B m' (rec m' n d)" by (simp add: good_def)
    with imp have "settled B m (rec m' n d)" by (auto simp: settled_def)
    with ow show ?thesis by (simp add: propose_def)
  qed
qed

lemma and_then_settled:
  assumes "settled B m r"
    and "\<And>m'. dom m' = dom m \<Longrightarrow> bounded_below B m' \<Longrightarrow> potential B m' \<le> potential B m \<Longrightarrow>
           settled B m' (f m')"
  shows "settled B m (and_then r f)"
proof -
  from assms(1) obtain x where x: "r = Some x"
    "\<And>m'. x = Inr m' \<Longrightarrow> dom m' = dom m \<and> bounded_below B m' \<and> potential B m' \<le> potential B m"
    by (auto simp: settled_def)
  show ?thesis
  proof (cases x)
    case (Inl e)
    with x show ?thesis by (simp add: and_then_def settled_error)
  next
    case (Inr m')
    from x(2) [OF Inr] assms(2) [of m'] have "settled B m' (f m')" by simp
    with x(2) [OF Inr] have "settled B m (f m')" by (auto simp: settled_def)
    with x Inr show ?thesis by (simp add: and_then_def)
  qed
qed

lemma kv_second_bounded:
  assumes "kv_second m k ext = Inr s" and "bounded_below B m" and "\<And>s'. ext = Some s' \<Longrightarrow> - B \<le> t s'"
  shows "- B \<le> t s"
  using assms by (cases k) (auto simp: kv_second_def bounded_below_def split: option.splits)

lemma replace_most_tested_animal_t:
  "replace_most_tested_animal ao orig w = Inr c \<Longrightarrow> 0 \<le> t c"
  by (auto simp: replace_most_tested_animal_def Let_def
      split: sum.splits if_splits argument_order.splits)


lemma rule_1_2_settled:
  assumes g: "good B rec b" and fin: "finite (dom m)" and bb: "bounded_below B m"
    and le: "potential B m \<le> b" and B: "0 \<le> B"
  shows "settled B m (rule_1_2 ao rec m n d tt ext)"
proof (cases "2 \<le> d \<and> d < n \<and> tt < n - 1")
  case False
  then have "rule_1_2 ao rec m n d tt ext = Some (Inr m)"
    unfolding rule_1_2_def by (rule if_not_P)
  then show ?thesis using bb by (simp add: settled_same)
next
  case guard: True
  show ?thesis
  proof (cases "kv_second m (n, d) ext")
    case (Inl e)
    with guard show ?thesis by (simp add: rule_1_2_def settled_error)
  next
    case s: (Inr strategy)
    show ?thesis
    proof (cases "replace_most_tested_animal ao strategy False")
      case (Inl e)
      with guard s show ?thesis by (simp add: rule_1_2_def settled_error)
    next
      case c1: (Inr smaller)
      have "- B \<le> t smaller" using replace_most_tested_animal_t [OF c1] B by simp
      from propose_settled [OF g fin bb le this]
      have st1: "settled B m (propose rec m (n - 1) d smaller)" .
      have "settled B m (and_then (propose rec m (n - 1) d smaller) (\<lambda>m1.
            if d - 1 \<ge> 2 then
              case kv_second m1 (n, d) ext of
                Inl e \<Rightarrow> Some (Inl e)
              | Inr strategy \<Rightarrow>
              case replace_most_tested_animal ao strategy True of
                Inl e \<Rightarrow> Some (Inl e)
              | Inr smaller_strategy \<Rightarrow> propose rec m1 (n - 1) (d - 1) smaller_strategy
            else Some (Inr m1)))"
      proof (rule and_then_settled [OF st1])
        fix m1
        assume m1: "dom m1 = dom m" "bounded_below B m1" "potential B m1 \<le> potential B m"
        then have fin1: "finite (dom m1)" and le1: "potential B m1 \<le> b"
          using fin le by simp_all
        show "settled B m1 (if d - 1 \<ge> 2 then
              case kv_second m1 (n, d) ext of
                Inl e \<Rightarrow> Some (Inl e)
              | Inr strategy \<Rightarrow>
              case replace_most_tested_animal ao strategy True of
                Inl e \<Rightarrow> Some (Inl e)
              | Inr smaller_strategy \<Rightarrow> propose rec m1 (n - 1) (d - 1) smaller_strategy
            else Some (Inr m1))"
        proof (cases "d - 1 \<ge> 2")
          case False
          then show ?thesis using m1 by (simp add: settled_same)
        next
          case True
          show ?thesis
          proof (cases "kv_second m1 (n, d) ext")
            case (Inl e)
            with True show ?thesis by (simp add: settled_error)
          next
            case s2: (Inr strategy2)
            show ?thesis
            proof (cases "replace_most_tested_animal ao strategy2 True")
              case (Inl e)
              with True s2 show ?thesis by (simp add: settled_error)
            next
              case c2: (Inr smaller2)
              have "- B \<le> t smaller2" using replace_most_tested_animal_t [OF c2] B by simp
              from propose_settled [OF g fin1 m1(2) le1 this] True s2 c2
              show ?thesis by simp
            qed
          qed
        qed
      qed
      then show ?thesis using guard s c1
        by (simp add: rule_1_2_def)
    qed
  qed
qed

lemma rule_3_settled:
  assumes g: "good B rec b" and fin: "finite (dom m)" and bb: "bounded_below B m"
    and le: "potential B m \<le> b" and ext: "\<And>s'. ext = Some s' \<Longrightarrow> - B \<le> t s'"
  shows "settled B m (rule_3 rec m n d tt ext)"
proof (cases "kv_second m (n, d) ext")
  case (Inl e)
  then show ?thesis using bb by (simp add: rule_3_def settled_same settled_error)
next
  case (Inr strategy)
  from kv_second_bounded [OF Inr bb ext] have "- B \<le> t strategy" by simp
  then have "settled B m (propose rec m n (d - 1)
      \<lparr>tests = tests strategy, t = t strategy, guaranteed_best = GB_No,
       belongs_in_file = BF_No\<rparr>)"
    by (intro propose_settled [OF g fin bb le]) simp
  with Inr bb show ?thesis by (simp add: rule_3_def settled_same)
qed

lemma rule_4_settled:
  assumes g: "good B rec b" and fin: "finite (dom m)" and bb: "bounded_below B m"
    and le: "potential B m \<le> b" and ext: "\<And>s'. ext = Some s' \<Longrightarrow> - B \<le> t s'"
  shows "settled B m (rule_4 rec m n d tt ext)"
proof (cases "kv_second m (n, d) ext")
  case (Inl e)
  then show ?thesis using bb by (simp add: rule_4_def settled_same settled_error)
next
  case (Inr strategy)
  from kv_second_bounded [OF Inr bb ext] have "- B \<le> t strategy" by simp
  then have "settled B m (propose rec m (n + 1) d (test_last_animal_individually n strategy))"
    by (intro propose_settled [OF g fin bb le]) (simp add: test_last_animal_individually_def)
  with Inr bb show ?thesis by (simp add: rule_4_def settled_same)
qed

lemma rule_5_settled:
  assumes g: "good B rec b" and fin: "finite (dom m)" and bb: "bounded_below B m"
    and le: "potential B m \<le> b" and B: "1 \<le> B"
  shows "settled B m (rule_5 rec m n d ext)"
proof (cases "kv_second m (n, d) ext")
  case (Inl e)
  then show ?thesis by (simp add: rule_5_def settled_error)
next
  case (Inr strategy)
  let ?c = "worst_case_strategy (n + 2) (guaranteed_best strategy)"
  show ?thesis
  proof (cases "0 \<le> n + 2")
    case True
    then have "- B \<le> t ?c" using B by (simp add: worst_case_strategy_def)
    from propose_settled [OF g fin bb le this] Inr bb
    show ?thesis by (simp add: rule_5_def settled_same)
  next
    case False
    then have "propose rec m (n + 2) (d + 1) ?c = Some (Inl AssertKeyRange)"
      by (simp add: propose_def overwrite_if_better_def)
    with Inr bb show ?thesis by (simp add: rule_5_def settled_same settled_error)
  qed
qed

lemma derive_from_settled:
  assumes g: "good B rec b" and fin: "finite (dom m)" and bb: "bounded_below B m"
    and le: "potential B m \<le> b" and B: "1 \<le> B"
    and ext: "\<And>s'. ext = Some s' \<Longrightarrow> - B \<le> t s'"
  shows "settled B m (derive_from ao rec m n d ext)"
proof (cases "kv_second m (n, d) ext")
  case (Inl e)
  then show ?thesis by (simp add: derive_from_def settled_error)
next
  case (Inr strategy)
  have B0: "0 \<le> B" using B by simp
  have "settled B m
     (and_then (rule_1_2 ao rec m n d (t strategy) ext) (\<lambda>m1.
      and_then (rule_3 rec m1 n d (t strategy) ext) (\<lambda>m2.
      and_then (rule_4 rec m2 n d (t strategy) ext) (\<lambda>m3.
      rule_5 rec m3 n d ext))))"
  proof (rule and_then_settled [OF rule_1_2_settled [OF g fin bb le B0]])
    fix m1
    assume m1: "dom m1 = dom m" "bounded_below B m1" "potential B m1 \<le> potential B m"
    then have fin1: "finite (dom m1)" and le1: "potential B m1 \<le> b" using fin le by simp_all
    show "settled B m1
       (and_then (rule_3 rec m1 n d (t strategy) ext) (\<lambda>m2.
        and_then (rule_4 rec m2 n d (t strategy) ext) (\<lambda>m3.
        rule_5 rec m3 n d ext)))"
    proof (rule and_then_settled [OF rule_3_settled [OF g fin1 m1(2) le1 ext]])
      fix m2
      assume m2: "dom m2 = dom m1" "bounded_below B m2" "potential B m2 \<le> potential B m1"
      then have fin2: "finite (dom m2)" and le2: "potential B m2 \<le> b" using fin1 le1 by simp_all
      show "settled B m2
         (and_then (rule_4 rec m2 n d (t strategy) ext) (\<lambda>m3. rule_5 rec m3 n d ext))"
      proof (rule and_then_settled [OF rule_4_settled [OF g fin2 m2(2) le2 ext]])
        fix m3
        assume m3: "dom m3 = dom m2" "bounded_below B m3" "potential B m3 \<le> potential B m2"
        then have fin3: "finite (dom m3)" and le3: "potential B m3 \<le> b"
          using fin2 le2 by simp_all
        show "settled B m3 (rule_5 rec m3 n d ext)"
          by (rule rule_5_settled [OF g fin3 m3(2) le3 B])
      qed simp
    qed simp
  qed
  with Inr show ?thesis by (simp add: derive_from_def Let_def)
qed

lemma add_solutions_derived_from_good:
  "1 \<le> B \<Longrightarrow> good B (\<lambda>m n d. add_solutions_derived_from ao fuel m n d None) fuel"
proof (induction fuel)
  case 0
  show ?case by (simp add: good_def)
next
  case (Suc fuel)
  show ?case
    unfolding good_def
  proof (intro allI impI)
    fix m n d
    assume a: "finite (dom m) \<and> bounded_below B m \<and> potential B m < Suc fuel"
    then have le: "potential B m \<le> fuel" and fin: "finite (dom m)"
      and bb: "bounded_below B m" by simp_all
    have "settled B m
        (derive_from ao (\<lambda>m' n' d'. add_solutions_derived_from ao fuel m' n' d' None) m n d None)"
      by (rule derive_from_settled [OF Suc.IH [OF Suc.prems] fin bb le Suc.prems]) simp
    then show "settled B m (add_solutions_derived_from ao (Suc fuel) m n d None)" by simp
  qed
qed


lemma bound_exists:
  assumes "finite (dom m)"
  shows "\<exists>B. 1 \<le> B \<and> bounded_below B m \<and> (\<forall>s'. ext = Some s' \<longrightarrow> - B \<le> t s')"
proof -
  let ?S = "insert 1 ((\<lambda>k. - t (the (m k))) ` dom m \<union> (\<lambda>s. - t s) ` set_option ext)"
  have fin: "finite ?S" using assms by simp
  have ge: "x \<le> Max ?S" if "x \<in> ?S" for x using fin that by (rule Max_ge)
  have one: "1 \<le> Max ?S" by (rule ge) simp
  have tab: "- t s \<le> Max ?S" if "m k = Some s" for k s
  proof (rule ge)
    from that have "- t s = - t (the (m k))" and "k \<in> dom m" by auto
    then have "- t s \<in> (\<lambda>k. - t (the (m k))) ` dom m" by (rule image_eqI)
    then show "- t s \<in> ?S" by blast
  qed
  have ex: "- t s' \<le> Max ?S" if "ext = Some s'" for s'
  proof (rule ge)
    from that have "- t s' \<in> (\<lambda>s. - t s) ` set_option ext" by simp
    then show "- t s' \<in> ?S" by blast
  qed
  show ?thesis
  proof (intro exI [of _ "Max ?S"] conjI allI impI)
    show "1 \<le> Max ?S" by (rule one)
    show "bounded_below (Max ?S) m"
      unfolding bounded_below_def using tab by (metis minus_le_iff)
    show "- Max ?S \<le> t s'" if "ext = Some s'" for s'
      using ex [OF that] by linarith
  qed
qed

lemma and_then_Some:
  "and_then r f = Some x \<longleftrightarrow>
     (\<exists>e. r = Some (Inl e) \<and> x = Inl e) \<or> (\<exists>m1. r = Some (Inr m1) \<and> f m1 = Some x)"
  by (auto simp: and_then_def split: option.splits sum.splits)

text \<open>
  More fuel does not change a result.
\<close>

definition extends :: "cascade \<Rightarrow> cascade \<Rightarrow> bool" where
  "extends rec rec' = (\<forall>m n d x. rec m n d = Some x \<longrightarrow> rec' m n d = Some x)"

lemma propose_mono:
  "extends rec rec' \<Longrightarrow> propose rec m n d c = Some x \<Longrightarrow> propose rec' m n d c = Some x"
  by (auto simp: propose_def extends_def split: sum.splits if_splits)

lemma and_then_mono:
  assumes "and_then r f = Some x" and "\<And>y. r = Some y \<Longrightarrow> r' = Some y"
    and "\<And>m1 y. f m1 = Some y \<Longrightarrow> f' m1 = Some y"
  shows "and_then r' f' = Some x"
proof -
  from assms(1) consider e where "r = Some (Inl e)" "x = Inl e"
    | m1 where "r = Some (Inr m1)" "f m1 = Some x"
    unfolding and_then_Some by blast
  then show ?thesis
  proof cases
    case 1
    with assms(2) show ?thesis by (simp add: and_then_def)
  next
    case 2
    with assms(2) [of "Inr m1"] assms(3) [of m1 x] show ?thesis by (simp add: and_then_def)
  qed
qed

lemma rule_1_2_mono:
  assumes ext: "extends rec rec'" and res: "rule_1_2 ao rec m n d tt ext = Some x"
  shows "rule_1_2 ao rec' m n d tt ext = Some x"
proof (cases "2 \<le> d \<and> d < n \<and> tt < n - 1")
  case False
  then have "rule_1_2 ao rec m n d tt ext = Some (Inr m)" "rule_1_2 ao rec' m n d tt ext = Some (Inr m)"
    unfolding rule_1_2_def by (rule if_not_P)+
  with res show ?thesis by simp
next
  case guard: True
  show ?thesis
  proof (cases "kv_second m (n, d) ext")
    case (Inl e)
    with guard res show ?thesis by (simp add: rule_1_2_def)
  next
    case s: (Inr strategy)
    show ?thesis
    proof (cases "replace_most_tested_animal ao strategy False")
      case (Inl e)
      with guard s res show ?thesis by (simp add: rule_1_2_def)
    next
      case c1: (Inr smaller)
      let ?f = "\<lambda>rec m1. if d - 1 \<ge> 2 then
            case kv_second m1 (n, d) ext of
              Inl e \<Rightarrow> Some (Inl e)
            | Inr strategy \<Rightarrow>
            case replace_most_tested_animal ao strategy True of
              Inl e \<Rightarrow> Some (Inl e)
            | Inr smaller_strategy \<Rightarrow> propose rec m1 (n - 1) (d - 1) smaller_strategy
          else Some (Inr m1)"
      from guard s c1 res
      have "and_then (propose rec m (n - 1) d smaller) (?f rec) = Some x"
        by (simp add: rule_1_2_def)
      then have "and_then (propose rec' m (n - 1) d smaller) (?f rec') = Some x"
      proof (rule and_then_mono)
        show "propose rec' m (n - 1) d smaller = Some y"
          if "propose rec m (n - 1) d smaller = Some y" for y
          using propose_mono [OF ext that] .
        show "?f rec' m1 = Some y" if "?f rec m1 = Some y" for m1 y
          using that propose_mono [OF ext]
          by (auto split: if_splits sum.splits)
      qed
      with guard s c1 show ?thesis by (simp add: rule_1_2_def)
    qed
  qed
qed

lemma rule_3_mono:
  "extends rec rec' \<Longrightarrow> rule_3 rec m n d tt ext = Some x \<Longrightarrow> rule_3 rec' m n d tt ext = Some x"
  by (auto simp: rule_3_def split: if_splits sum.splits dest: propose_mono)

lemma rule_4_mono:
  "extends rec rec' \<Longrightarrow> rule_4 rec m n d tt ext = Some x \<Longrightarrow> rule_4 rec' m n d tt ext = Some x"
  by (auto simp: rule_4_def split: if_splits sum.splits dest: propose_mono)

lemma rule_5_mono:
  "extends rec rec' \<Longrightarrow> rule_5 rec m n d ext = Some x \<Longrightarrow> rule_5 rec' m n d ext = Some x"
  by (auto simp: rule_5_def split: if_splits sum.splits dest: propose_mono)

lemma derive_from_mono:
  assumes "extends rec rec'" and "derive_from ao rec m n d ext = Some x"
  shows "derive_from ao rec' m n d ext = Some x"
proof (cases "kv_second m (n, d) ext")
  case (Inl e)
  with assms(2) show ?thesis by (simp add: derive_from_def)
next
  case (Inr s)
  note r12 = rule_1_2_mono [OF assms(1)] and r3 = rule_3_mono [OF assms(1)]
    and r4 = rule_4_mono [OF assms(1)] and r5 = rule_5_mono [OF assms(1)]
  from assms(2) Inr
  have "and_then (rule_1_2 ao rec m n d (t s) ext) (\<lambda>m1.
        and_then (rule_3 rec m1 n d (t s) ext) (\<lambda>m2.
        and_then (rule_4 rec m2 n d (t s) ext) (\<lambda>m3.
        rule_5 rec m3 n d ext))) = Some x"
    by (simp add: derive_from_def Let_def)
  then have "and_then (rule_1_2 ao rec' m n d (t s) ext) (\<lambda>m1.
        and_then (rule_3 rec' m1 n d (t s) ext) (\<lambda>m2.
        and_then (rule_4 rec' m2 n d (t s) ext) (\<lambda>m3.
        rule_5 rec' m3 n d ext))) = Some x"
  proof (rule and_then_mono)
    fix m1 y
    assume "and_then (rule_3 rec m1 n d (t s) ext) (\<lambda>m2.
        and_then (rule_4 rec m2 n d (t s) ext) (\<lambda>m3. rule_5 rec m3 n d ext)) = Some y"
    then show "and_then (rule_3 rec' m1 n d (t s) ext) (\<lambda>m2.
        and_then (rule_4 rec' m2 n d (t s) ext) (\<lambda>m3. rule_5 rec' m3 n d ext)) = Some y"
    proof (rule and_then_mono)
      fix m2 z
      assume "and_then (rule_4 rec m2 n d (t s) ext) (\<lambda>m3. rule_5 rec m3 n d ext) = Some z"
      then show "and_then (rule_4 rec' m2 n d (t s) ext) (\<lambda>m3. rule_5 rec' m3 n d ext) = Some z"
        by (rule and_then_mono) (erule r4, erule r5)
    qed (erule r3)
  qed (erule r12)
  with Inr show ?thesis by (simp add: derive_from_def Let_def)
qed

lemma fuel_step:
  "add_solutions_derived_from ao fuel m n d ext = Some x \<Longrightarrow>
     add_solutions_derived_from ao (Suc fuel) m n d ext = Some x"
proof (induction fuel arbitrary: m n d ext x)
  case 0
  then show ?case by simp
next
  case (Suc fuel)
  have "extends (\<lambda>m' n' d'. add_solutions_derived_from ao fuel m' n' d' None)
      (\<lambda>m' n' d'. add_solutions_derived_from ao (Suc fuel) m' n' d' None)"
    unfolding extends_def using Suc.IH by blast
  from derive_from_mono [OF this] Suc.prems show ?case by simp
qed

lemma fuel_add:
  "add_solutions_derived_from ao fuel m n d ext = Some x \<Longrightarrow>
     add_solutions_derived_from ao (fuel + k) m n d ext = Some x"
proof (induction k)
  case 0
  then show ?case by simp
next
  case (Suc k)
  from fuel_step [OF Suc.IH [OF Suc.prems]] show ?case
    by (simp del: add_solutions_derived_from.simps)
qed

lemma fuel_mono:
  assumes "add_solutions_derived_from ao fuel m n d ext = Some x" and "fuel \<le> fuel'"
  shows "add_solutions_derived_from ao fuel' m n d ext = Some x"
  using fuel_add [OF assms(1), of "fuel' - fuel"] assms(2) by simp

lemma cascade_returns:
  assumes "finite (dom m)"
  shows "\<exists>fuel x. \<forall>fuel' \<ge> fuel. add_solutions_derived_from ao fuel' m n d ext = Some x"
proof -
  from bound_exists [OF assms, of ext] obtain B where B: "1 \<le> B" "bounded_below B m"
    "\<And>s'. ext = Some s' \<Longrightarrow> - B \<le> t s'" by blast
  let ?fuel = "potential B m"
  have "settled B m (derive_from ao (\<lambda>m' n' d'. add_solutions_derived_from ao ?fuel m' n' d' None)
      m n d ext)"
    by (rule derive_from_settled [OF add_solutions_derived_from_good [OF B(1)] assms B(2) _ B(1) B(3)])
      simp_all
  then obtain x where "add_solutions_derived_from ao (Suc ?fuel) m n d ext = Some x"
    by (auto simp: settled_def)
  then show ?thesis using fuel_mono by blast
qed

text \<open>
  Claim C9. From every finite table, for every key and every strategy it is started
  with, the cascade returns: some amount of fuel is enough, and with that much or more
  the result is the same, a final table or the failure that ended the run. The reasons
  are those of the claim. An update that does not improve the table leaves it as it is
  and makes no recursive call; an update of a key that the table does not hold improves
  nothing; and an update that improves the table strictly lowers its potential, a natural
  number, while the keys stay the same. The cascade returns for either order of evaluation
  \<open>ao\<close>: the proof needs of a derived strategy only that its test count is not negative.
\<close>

theorem cascade_terminates:
  assumes "finite (dom m)"
  shows "(\<exists>fuel x. \<forall>fuel' \<ge> fuel. add_solutions_derived_from ao fuel' m n d ext = Some x) \<and>
    (\<forall>rec n' d' c m'. overwrite_if_better m n' d' c = Inr (m', False) \<longrightarrow>
       m' = m \<and> propose rec m n' d' c = Some (Inr m)) \<and>
    (\<forall>n' d' c. m (n', d') = None \<longrightarrow>
       overwrite_if_better m n' d' c = Inr (m, False) \<or>
       overwrite_if_better m n' d' c = Inl AssertKeyRange) \<and>
    (\<forall>B n' d' c m'. overwrite_if_better m n' d' c = Inr (m', True) \<and> bounded_below B m \<and>
       - B \<le> t c \<longrightarrow>
       potential B m' < potential B m \<and> bounded_below B m' \<and> dom m' = dom m)"
proof (intro conjI allI impI)
  show "\<exists>fuel x. \<forall>fuel' \<ge> fuel. add_solutions_derived_from ao fuel' m n d ext = Some x"
    by (rule cascade_returns [OF assms])
next
  fix rec :: cascade and n' d' c m'
  assume a: "overwrite_if_better m n' d' c = Inr (m', False)"
  from overwrite_if_better_cases [OF a] show "m' = m" by simp
  with a show "propose rec m n' d' c = Some (Inr m)" by (simp add: propose_def)
next
  fix n' d' c
  assume "m (n', d') = None"
  then show "overwrite_if_better m n' d' c = Inr (m, False) \<or>
       overwrite_if_better m n' d' c = Inl AssertKeyRange"
    by (simp add: overwrite_if_better_def)
next
  fix B n' d' c m'
  assume a: "overwrite_if_better m n' d' c = Inr (m', True) \<and> bounded_below B m \<and> - B \<le> t c"
  then have ow: "overwrite_if_better m n' d' c = Inr (m', True)" and bb: "bounded_below B m"
    and c: "- B \<le> t c" by simp_all
  show "potential B m' < potential B m" by (rule overwrite_improves(1) [OF ow assms bb c])
  show "bounded_below B m'" by (rule overwrite_improves(2) [OF ow assms bb c])
  show "dom m' = dom m" by (rule overwrite_improves(3) [OF ow assms bb c])
qed

theorem cascade_terminates_witness:
  "finite (dom [(6, 2) \<mapsto> \<lparr>tests = Inr [''1111..'', ''11..11'', ''1.1.1.'', ''.11..1''], t = 4,
                   guaranteed_best = GB_No, belongs_in_file = BF_Yes\<rparr>,
                (5, 2) \<mapsto> worst_case_strategy 5 GB_Yes,
                (7, 2) \<mapsto> worst_case_strategy 7 GB_No] :: ND set) \<and>
   (\<exists>fuel x. \<forall>fuel' \<ge> fuel.
      add_solutions_derived_from Size_First fuel'
        [(6, 2) \<mapsto> \<lparr>tests = Inr [''1111..'', ''11..11'', ''1.1.1.'', ''.11..1''], t = 4,
                   guaranteed_best = GB_No, belongs_in_file = BF_Yes\<rparr>,
         (5, 2) \<mapsto> worst_case_strategy 5 GB_Yes,
         (7, 2) \<mapsto> worst_case_strategy 7 GB_No]
        6 2 (Some \<lparr>tests = Inr [''1111..'', ''11..11'', ''1.1.1.'', ''.11..1''], t = 4,
                   guaranteed_best = GB_No, belongs_in_file = BF_Yes\<rparr>) = Some x) \<and>
   (\<exists>fuel x. \<forall>fuel' \<ge> fuel.
      add_solutions_derived_from Capture_First fuel'
        [(6, 2) \<mapsto> \<lparr>tests = Inr [''1111..'', ''11..11'', ''1.1.1.'', ''.11..1''], t = 4,
                   guaranteed_best = GB_No, belongs_in_file = BF_Yes\<rparr>,
         (5, 2) \<mapsto> worst_case_strategy 5 GB_Yes,
         (7, 2) \<mapsto> worst_case_strategy 7 GB_No]
        6 2 (Some \<lparr>tests = Inr [''1111..'', ''11..11'', ''1.1.1.'', ''.11..1''], t = 4,
                   guaranteed_best = GB_No, belongs_in_file = BF_Yes\<rparr>) = Some x)"
proof -
  let ?s = "\<lparr>tests = Inr [''1111..'', ''11..11'', ''1.1.1.'', ''.11..1''], t = 4,
             guaranteed_best = GB_No, belongs_in_file = BF_Yes\<rparr>"
  let ?m = "[(6, 2) \<mapsto> ?s, (5, 2) \<mapsto> worst_case_strategy 5 GB_Yes,
             (7, 2) \<mapsto> worst_case_strategy 7 GB_No] :: table"
  have fin: "finite (dom ?m)" by simp
  have returns: "\<exists>fuel x. \<forall>fuel' \<ge> fuel.
      add_solutions_derived_from ao fuel' ?m 6 2 (Some ?s) = Some x" for ao
    using cascade_terminates [OF fin] by blast
  from fin returns [of Size_First] returns [of Capture_First] show ?thesis
    by (intro conjI)
qed

subsection \<open>The most tested animal\<close>

text \<open>
  The number of tests that are positive for animal \<open>i\<close>, the column of an animal, and
  what it is to be the most tested animal of \<open>N\<close>: no animal is in more tests, and every
  animal before it is in fewer.
\<close>

definition positive_tests :: "string list \<Rightarrow> nat \<Rightarrow> nat" where
  "positive_tests rows i = length (filter (\<lambda>test. tested test i) rows)"

definition column :: "string list \<Rightarrow> nat \<Rightarrow> bool list" where
  "column rows i = map (\<lambda>test. tested test i) rows"

definition most_tested :: "string list \<Rightarrow> nat \<Rightarrow> nat \<Rightarrow> bool" where
  "most_tested rows N idx =
     (idx < N \<and> (\<forall>j < N. positive_tests rows j \<le> positive_tests rows idx) \<and>
      (\<forall>j < idx. positive_tests rows j < positive_tests rows idx))"

lemma length_count_row [simp]: "length (count_row counts test) = length counts"
  by (simp add: count_row_def)

lemma foldl_count_row_length [simp]: "length (foldl count_row counts rows) = length counts"
  by (induction rows arbitrary: counts) simp_all

lemma foldl_count_row_nth:
  "i < length counts \<Longrightarrow>
     foldl count_row counts rows ! i = counts ! i + positive_tests rows i"
  by (induction rows arbitrary: counts) (simp_all add: positive_tests_def count_row_def)

lemma counts_nth:
  "i < n \<Longrightarrow> foldl count_row (replicate n 0) rows ! i = positive_tests rows i"
  by (simp add: foldl_count_row_nth)

lemma max_element_from_spec:
  assumes "length pre = i" and "largest < i" and "pre ! largest = v"
    and "\<forall>j < i. pre ! j \<le> v" and "\<forall>j < largest. pre ! j < v"
  shows "max_element_from xs i largest v < length (pre @ xs) \<and>
         (\<forall>j < length (pre @ xs). (pre @ xs) ! j \<le> (pre @ xs) ! max_element_from xs i largest v) \<and>
         (\<forall>j < max_element_from xs i largest v.
            (pre @ xs) ! j < (pre @ xs) ! max_element_from xs i largest v)"
  using assms
proof (induction xs arbitrary: pre i largest v)
  case Nil
  then show ?case by simp
next
  case (Cons x xs)
  show ?case
  proof (cases "v < x")
    case True
    have "max_element_from xs (Suc i) i x < length ((pre @ [x]) @ xs) \<and>
         (\<forall>j < length ((pre @ [x]) @ xs).
            ((pre @ [x]) @ xs) ! j \<le> ((pre @ [x]) @ xs) ! max_element_from xs (Suc i) i x) \<and>
         (\<forall>j < max_element_from xs (Suc i) i x.
            ((pre @ [x]) @ xs) ! j < ((pre @ [x]) @ xs) ! max_element_from xs (Suc i) i x)"
    proof (rule Cons.IH)
      show "length (pre @ [x]) = Suc i" using Cons.prems by simp
      show "i < Suc i" by simp
      show "(pre @ [x]) ! i = x" using Cons.prems by (simp add: nth_append)
      show "\<forall>j < Suc i. (pre @ [x]) ! j \<le> x"
        using Cons.prems True by (auto simp: nth_append less_Suc_eq)
      show "\<forall>j < i. (pre @ [x]) ! j < x"
        using Cons.prems True by (auto simp: nth_append)
    qed
    with True show ?thesis by simp
  next
    case False
    have "max_element_from xs (Suc i) largest v < length ((pre @ [x]) @ xs) \<and>
         (\<forall>j < length ((pre @ [x]) @ xs).
            ((pre @ [x]) @ xs) ! j \<le> ((pre @ [x]) @ xs) ! max_element_from xs (Suc i) largest v) \<and>
         (\<forall>j < max_element_from xs (Suc i) largest v.
            ((pre @ [x]) @ xs) ! j < ((pre @ [x]) @ xs) ! max_element_from xs (Suc i) largest v)"
    proof (rule Cons.IH)
      show "length (pre @ [x]) = Suc i" using Cons.prems by simp
      show "largest < Suc i" using Cons.prems by simp
      show "(pre @ [x]) ! largest = v" using Cons.prems by (simp add: nth_append)
      show "\<forall>j < Suc i. (pre @ [x]) ! j \<le> v"
        using Cons.prems False by (auto simp: nth_append less_Suc_eq)
      show "\<forall>j < largest. (pre @ [x]) ! j < v"
        using Cons.prems by (auto simp: nth_append)
    qed
    with False show ?thesis by simp
  qed
qed

lemma max_element_spec:
  assumes "xs \<noteq> []"
  shows "max_element xs < length xs \<and>
         (\<forall>j < length xs. xs ! j \<le> xs ! max_element xs) \<and>
         (\<forall>j < max_element xs. xs ! j < xs ! max_element xs)"
proof -
  from assms obtain x ys where xs: "xs = x # ys" by (cases xs) auto
  from max_element_from_spec [of "[x]" 1 0 x ys] show ?thesis
    unfolding xs by simp
qed


lemma most_tested_unique:
  "most_tested rows N i \<Longrightarrow> most_tested rows N j \<Longrightarrow> i = j"
  unfolding most_tested_def by (metis leD linorder_neqE_nat)

lemma most_tested_max_element:
  assumes "0 < N"
  shows "most_tested rows N (max_element (foldl count_row (replicate N 0) rows))"
    and "foldl count_row (replicate N 0) rows ! max_element (foldl count_row (replicate N 0) rows) =
         positive_tests rows (max_element (foldl count_row (replicate N 0) rows))"
proof -
  let ?counts = "foldl count_row (replicate N 0) rows"
  have len: "length ?counts = N" by simp
  have ne: "?counts \<noteq> []"
  proof
    assume "?counts = []"
    then have "length ?counts = 0" by (simp only: list.size)
    with len assms show False by simp
  qed
  note spec = max_element_spec [OF ne, unfolded len]
  from spec have lt: "max_element ?counts < N" by simp
  show "?counts ! max_element ?counts = positive_tests rows (max_element ?counts)"
    using counts_nth [OF lt] .
  show "most_tested rows N (max_element ?counts)"
    unfolding most_tested_def
  proof (intro conjI allI impI)
    show "max_element ?counts < N" by (rule lt)
    fix j
    { assume j: "j < N"
      with spec have "?counts ! j \<le> ?counts ! max_element ?counts" by simp
      then show "positive_tests rows j \<le> positive_tests rows (max_element ?counts)"
        using counts_nth [OF j] counts_nth [OF lt] by simp }
    { assume j: "j < max_element ?counts"
      with spec have "?counts ! j < ?counts ! max_element ?counts" by simp
      moreover from j lt have "j < N" by simp
      ultimately show "positive_tests rows j < positive_tests rows (max_element ?counts)"
        using counts_nth [of j N rows] counts_nth [OF lt] by simp }
  qed
qed

lemma length_kept:
  "int (length (filter (\<lambda>test. \<not> tested test i) rows)) =
     int (length rows) - int (positive_tests rows i)"
  using sum_length_filter_compl [of "\<lambda>test. tested test i" rows]
  by (simp add: positive_tests_def)

text \<open>What the transform returns on rows that all have \<open>N\<close> columns.\<close>

lemma replace_most_tested_animal_rect:
  assumes rows: "tests orig = Inr rows" and ne: "rows \<noteq> []"
    and rect: "\<forall>test \<in> set rows. length test = N" and N: "0 < N"
  shows "\<exists>idx. most_tested rows N idx \<and>
     replace_most_tested_animal ao orig w =
       (if \<not> 2 \<le> positive_tests rows idx then Inl AssertMostTested
        else Inr \<lparr>tests = Inr (map (erase_at idx)
                              (if w then filter (\<lambda>test. \<not> tested test idx) rows else rows)),
                 t = (case ao of
                        Size_First \<Rightarrow>
                          (if w then int (length rows) - int (positive_tests rows idx)
                           else int (length rows))
                      | Capture_First \<Rightarrow> 0),
                 guaranteed_best = GB_No, belongs_in_file = BF_No\<rparr>)"
proof -
  let ?counts = "foldl count_row (replicate N 0) rows"
  let ?idx = "max_element ?counts"
  from ne rect have hd: "length (hd rows) = N" by (cases rows) auto
  note mt = most_tested_max_element [OF N, of rows]
  from mt(1) have lt: "?idx < N" by (simp add: most_tested_def)
  have short: "\<not> (\<exists>test \<in> set rows. length test + 1 < N)" using rect by auto
  have kept: "\<not> (\<exists>test \<in> set (if w then filter (\<lambda>test. \<not> tested test ?idx) rows else rows).
      length test \<le> ?idx)"
    using rect lt by auto
  show ?thesis
  proof (intro exI [of _ ?idx] conjI)
    show "most_tested rows N ?idx" by (rule mt(1))
    show "replace_most_tested_animal ao orig w =
       (if \<not> 2 \<le> positive_tests rows ?idx then Inl AssertMostTested
        else Inr \<lparr>tests = Inr (map (erase_at ?idx)
                              (if w then filter (\<lambda>test. \<not> tested test ?idx) rows else rows)),
                 t = (case ao of
                        Size_First \<Rightarrow>
                          (if w then int (length rows) - int (positive_tests rows ?idx)
                           else int (length rows))
                      | Capture_First \<Rightarrow> 0),
                 guaranteed_best = GB_No, belongs_in_file = BF_No\<rparr>)"
      unfolding replace_most_tested_animal_def
      using ne N short kept mt(2) length_kept [of ?idx rows]
      by (cases ao) (simp_all add: rows Let_def hd del: foldl_count_row_length)
  qed
qed


text \<open>Pigeonhole: columns with at most one positive test each.\<close>

definition first_positive :: "bool list \<Rightarrow> nat" where
  "first_positive c = length (takeWhile Not c)"

lemma no_positive: "filter (\<lambda>b. b) c = [] \<Longrightarrow> c = replicate (length c) False"
  by (induction c) (auto split: if_splits)

lemma first_positive_inj:
  "length c = length c' \<Longrightarrow> length (filter (\<lambda>b. b) c) \<le> 1 \<Longrightarrow> length (filter (\<lambda>b. b) c') \<le> 1 \<Longrightarrow>
     first_positive c = first_positive c' \<Longrightarrow> c = c'"
proof (induction c c' rule: list_induct2)
  case Nil
  then show ?case by simp
next
  case (Cons x xs y ys)
  show ?case
  proof (cases x)
    case True
    with Cons.prems(3) have y: "y" by (cases y) (simp_all add: first_positive_def)
    from True Cons.prems(1) have "filter (\<lambda>b. b) xs = []" by simp
    moreover from y Cons.prems(2) have "filter (\<lambda>b. b) ys = []" by simp
    ultimately have "xs = replicate (length xs) False" "ys = replicate (length ys) False"
      by (auto dest: no_positive)
    with Cons.hyps True y show ?thesis by simp
  next
    case False
    with Cons.prems(3) have y: "\<not> y" by (cases y) (simp_all add: first_positive_def)
    with False Cons.prems have "xs = ys"
      by (intro Cons.IH) (simp_all add: first_positive_def)
    with False y show ?thesis by simp
  qed
qed

lemma first_positive_le: "first_positive c \<le> length c"
  unfolding first_positive_def by (rule length_takeWhile_le)

lemma positive_tests_column: "positive_tests rows i = length (filter (\<lambda>b. b) (column rows i))"
  by (simp add: positive_tests_def column_def filter_map comp_def)

lemma pigeonhole:
  assumes distinct: "\<forall>i < N. \<forall>j < N. i \<noteq> j \<longrightarrow> column rows i \<noteq> column rows j"
    and few: "int (length rows) < int N - 1"
  shows "\<exists>i < N. 2 \<le> positive_tests rows i"
proof (rule ccontr)
  assume "\<not> (\<exists>i < N. 2 \<le> positive_tests rows i)"
  then have le1: "length (filter (\<lambda>b. b) (column rows i)) \<le> 1" if "i < N" for i
    using that by (fastforce simp: positive_tests_column)
  let ?f = "\<lambda>i. first_positive (column rows i)"
  have "inj_on ?f {..<N}"
  proof (rule inj_onI)
    fix i j
    assume i: "i \<in> {..<N}" and j: "j \<in> {..<N}" and eq: "?f i = ?f j"
    have "column rows i = column rows j"
      by (rule first_positive_inj) (use i j eq le1 in \<open>simp_all add: column_def\<close>)
    with distinct i j show "i = j" by auto
  qed
  moreover have "?f ` {..<N} \<subseteq> {..length rows}"
    using first_positive_le [of "column rows _"] by (auto simp: column_def)
  ultimately have "card {..<N} \<le> card {..length rows}"
    by (intro card_inj_on_le) simp_all
  with few show False by simp
qed


lemma replace_most_tested_animal_Inr:
  assumes "replace_most_tested_animal ao orig w = Inr cand" and "tests orig = Inr rows"
  shows "rows \<noteq> []" and "0 < length (hd rows)"
  using assms
  by (auto simp: replace_most_tested_animal_def Let_def split: if_splits)

text \<open>Strategies and a recursive call that returns at once, for the examples below.\<close>

definition example_5_3 :: Strategy where
  "example_5_3 = \<lparr>tests = Inr [''11...'', ''1.1..'', ''.11.1''], t = 3,
     guaranteed_best = GB_No, belongs_in_file = BF_Yes\<rparr>"

definition stop :: cascade where
  "stop m n d = Some (Inr m)"




definition example_6_2 :: Strategy where
  "example_6_2 = \<lparr>tests = Inr [''1.....''], t = 1,
     guaranteed_best = GB_No, belongs_in_file = BF_Yes\<rparr>"

definition example_6_3 :: Strategy where
  "example_6_3 = \<lparr>tests = Inr [''1111..'', ''11..11'', ''1.1.1.'', ''.11..1''], t = 4,
     guaranteed_best = GB_No, belongs_in_file = BF_Yes\<rparr>"

lemma all_less_upt: "(\<forall>i < N. P i) \<longleftrightarrow> (\<forall>i \<in> set [0 ..< N]. P i)"
  by auto

text \<open>
  The candidate of rule 2. Let rule 2 apply (\<open>2 \<le> d < n\<close>, \<open>t < n - 1\<close>, \<open>d - 1 \<ge> 2\<close>), let
  rule 1 have run to the table \<open>m1\<close>, and let the strategy read then have \<open>t\<close> rows of \<open>N\<close>
  characters and pass the transform. Then the run goes on by proposing the result \<open>cand\<close> of
  the transform for \<open>(n - 1, d - 1)\<close>, before rules 3 to 5. The candidate is built on the most
  tested animal \<open>idx\<close>, the first of those in the most tests: its rows are the rows that
  are not positive for \<open>idx\<close>, each without column \<open>idx\<close>, and it is not marked guaranteed
  best. Its test count is \<open>t\<close> less the number of rows that are positive for \<open>idx\<close> when the
  size is read before the capture is made, and \<open>0\<close> when the capture is made first.
\<close>

lemma rule_2_candidate:
  assumes guard: "2 \<le> d" "d < n" "t s < n - 1" "d - 1 \<ge> 2"
    and s: "kv_second m (n, d) ext = Inr s"
    and c1: "replace_most_tested_animal ao s False = Inr c1"
    and m1: "propose rec m (n - 1) d c1 = Some (Inr m1)"
    and orig: "kv_second m1 (n, d) ext = Inr orig"
    and rows: "tests orig = Inr rows"
    and inv: "t orig = int (length rows)" "\<forall>test \<in> set rows. length test = N"
    and cand: "replace_most_tested_animal ao orig True = Inr cand"
  shows "derive_from ao rec m n d ext =
           and_then (propose rec m1 (n - 1) (d - 1) cand) (\<lambda>m2.
           and_then (rule_3 rec m2 n d (t s) ext) (\<lambda>m3.
           and_then (rule_4 rec m3 n d (t s) ext) (\<lambda>m4.
           rule_5 rec m4 n d ext))) \<and>
         (\<exists>idx. most_tested rows N idx \<and>
            tests cand = Inr (map (erase_at idx) (filter (\<lambda>test. \<not> tested test idx) rows)) \<and>
            t cand = (case ao of
                        Size_First \<Rightarrow> t orig - int (positive_tests rows idx)
                      | Capture_First \<Rightarrow> 0) \<and>
            guaranteed_best cand = GB_No \<and> belongs_in_file cand = BF_No)"
proof
  have "rule_1_2 ao rec m n d (t s) ext = propose rec m1 (n - 1) (d - 1) cand"
    using guard s c1 m1 orig cand by (simp add: rule_1_2_def and_then_def)
  with s show "derive_from ao rec m n d ext =
           and_then (propose rec m1 (n - 1) (d - 1) cand) (\<lambda>m2.
           and_then (rule_3 rec m2 n d (t s) ext) (\<lambda>m3.
           and_then (rule_4 rec m3 n d (t s) ext) (\<lambda>m4.
           rule_5 rec m4 n d ext)))"
    by (simp add: derive_from_def Let_def)
next
  note ne = replace_most_tested_animal_Inr [OF cand rows]
  from ne inv(2) have N: "0 < N" by (cases rows) auto
  from replace_most_tested_animal_rect [OF rows ne(1) inv(2) N, of ao True] cand inv(1)
  show "\<exists>idx. most_tested rows N idx \<and>
            tests cand = Inr (map (erase_at idx) (filter (\<lambda>test. \<not> tested test idx) rows)) \<and>
            t cand = (case ao of
                        Size_First \<Rightarrow> t orig - int (positive_tests rows idx)
                      | Capture_First \<Rightarrow> 0) \<and>
            guaranteed_best cand = GB_No \<and> belongs_in_file cand = BF_No"
    by (cases ao) (auto split: if_splits)
qed



text \<open>
  Claim C5, as the code has it. For a strategy with at least one row, all rows of
  \<open>N \<ge> 1\<close> characters: when the columns of the animals are pairwise distinct and there are
  fewer than \<open>N - 1\<close> rows, some animal is in two tests or more; whenever some animal is in
  two tests or more the transform returns a strategy; and whenever every animal is in
  fewer than two, the transform fails \<open>assert(most_tested_count >= 2)\<close>, and with it rule 1
  when its guard \<open>2 \<le> d < n\<close>, \<open>t < n - 1\<close> holds. The guard alone does not bound the count.
  All of this holds for either order of evaluation \<open>ao\<close>.
\<close>

theorem most_tested_count_guard:
  assumes rows: "tests orig = Inr rows" and ne: "rows \<noteq> []"
    and rect: "\<forall>test \<in> set rows. length test = N" and N: "0 < N"
  shows "((\<forall>i < N. \<forall>j < N. i \<noteq> j \<longrightarrow> column rows i \<noteq> column rows j) \<and>
          int (length rows) < int N - 1 \<longrightarrow> (\<exists>i < N. 2 \<le> positive_tests rows i)) \<and>
         ((\<exists>i < N. 2 \<le> positive_tests rows i) \<longrightarrow>
            (\<exists>cand. replace_most_tested_animal ao orig w = Inr cand)) \<and>
         ((\<forall>i < N. positive_tests rows i < 2) \<longrightarrow>
            replace_most_tested_animal ao orig w = Inl AssertMostTested \<and>
            (2 \<le> d \<and> d < n \<and> tt < n - 1 \<longrightarrow>
               rule_1_2 ao rec m n d tt (Some orig) = Some (Inl AssertMostTested)))"
proof (intro conjI impI)
  assume "(\<forall>i < N. \<forall>j < N. i \<noteq> j \<longrightarrow> column rows i \<noteq> column rows j) \<and>
          int (length rows) < int N - 1"
  then show "\<exists>i < N. 2 \<le> positive_tests rows i" using pigeonhole by blast
next
  from replace_most_tested_animal_rect [OF rows ne rect N, of ao w] obtain idx where
    idx: "most_tested rows N idx" and
    res: "replace_most_tested_animal ao orig w =
       (if \<not> 2 \<le> positive_tests rows idx then Inl AssertMostTested
        else Inr \<lparr>tests = Inr (map (erase_at idx)
                              (if w then filter (\<lambda>test. \<not> tested test idx) rows else rows)),
                 t = (case ao of
                        Size_First \<Rightarrow>
                          (if w then int (length rows) - int (positive_tests rows idx)
                           else int (length rows))
                      | Capture_First \<Rightarrow> 0),
                 guaranteed_best = GB_No, belongs_in_file = BF_No\<rparr>)"
    by blast
  { assume "\<exists>i < N. 2 \<le> positive_tests rows i"
    with idx have "2 \<le> positive_tests rows idx"
      unfolding most_tested_def by (meson order_trans)
    with res show "\<exists>cand. replace_most_tested_animal ao orig w = Inr cand" by simp }
  { assume "\<forall>i < N. positive_tests rows i < 2"
    with idx have "\<not> 2 \<le> positive_tests rows idx"
      unfolding most_tested_def by (simp add: not_le)
    with res show "replace_most_tested_animal ao orig w = Inl AssertMostTested" by simp }
next
  assume few: "\<forall>i < N. positive_tests rows i < 2" and guard: "2 \<le> d \<and> d < n \<and> tt < n - 1"
  from replace_most_tested_animal_rect [OF rows ne rect N, of ao False] obtain idx where
    idx: "most_tested rows N idx" and
    res: "replace_most_tested_animal ao orig False =
       (if \<not> 2 \<le> positive_tests rows idx then Inl AssertMostTested
        else Inr \<lparr>tests = Inr (map (erase_at idx) (if False
                     then filter (\<lambda>test. \<not> tested test idx) rows else rows)),
                 t = (case ao of
                        Size_First \<Rightarrow>
                          (if False then int (length rows) - int (positive_tests rows idx)
                           else int (length rows))
                      | Capture_First \<Rightarrow> 0),
                 guaranteed_best = GB_No, belongs_in_file = BF_No\<rparr>)"
    by blast
  from few idx have "\<not> 2 \<le> positive_tests rows idx"
    unfolding most_tested_def by (simp add: not_le)
  with res have "replace_most_tested_animal ao orig False = Inl AssertMostTested" by simp
  with guard show "rule_1_2 ao rec m n d tt (Some orig) = Some (Inl AssertMostTested)"
    by (simp add: rule_1_2_def kv_second_def)
qed

text \<open>
  A strategy of one test for \<open>(6, 2)\<close>, as a file may hold it: the guard of rules 1 and 2
  holds, no animal is in two tests, and the run stops at the assertion. With no test at
  all the source reads \<open>tests[0]\<close> of an empty vector before it reaches the assertion.
\<close>

theorem most_tested_count_counterexample:
  "(2::int) \<le> 2 \<and> (2::int) < 6 \<and> t example_6_2 < 6 - 1 \<and>
   tests example_6_2 = Inr [''1.....''] \<and>
   map (positive_tests [''1.....'']) [0 ..< 6] = [1, 0, 0, 0, 0, 0] \<and>
   replace_most_tested_animal Size_First example_6_2 False = Inl AssertMostTested \<and>
   replace_most_tested_animal Capture_First example_6_2 False = Inl AssertMostTested \<and>
   rule_1_2 Size_First stop [(6, 2) \<mapsto> example_6_2] 6 2 (t example_6_2) (Some example_6_2) =
     Some (Inl AssertMostTested) \<and>
   rule_1_2 Capture_First stop [(6, 2) \<mapsto> example_6_2] 6 2 (t example_6_2) (Some example_6_2) =
     Some (Inl AssertMostTested) \<and>
   replace_most_tested_animal Size_First (example_6_2\<lparr>tests := Inr [], t := 0\<rparr>) False =
     Inl UndefinedBehaviour \<and>
   replace_most_tested_animal Capture_First (example_6_2\<lparr>tests := Inr [], t := 0\<rparr>) False =
     Inl UndefinedBehaviour \<and>
   rule_1_2 Size_First stop [(6, 2) \<mapsto> example_6_2\<lparr>tests := Inr [], t := 0\<rparr>] 6 2 0
     (Some (example_6_2\<lparr>tests := Inr [], t := 0\<rparr>)) = Some (Inl UndefinedBehaviour) \<and>
   rule_1_2 Capture_First stop [(6, 2) \<mapsto> example_6_2\<lparr>tests := Inr [], t := 0\<rparr>] 6 2 0
     (Some (example_6_2\<lparr>tests := Inr [], t := 0\<rparr>)) = Some (Inl UndefinedBehaviour)"
proof -
  have a: "replace_most_tested_animal Size_First example_6_2 False = Inl AssertMostTested"
    "replace_most_tested_animal Capture_First example_6_2 False = Inl AssertMostTested"
    by code_simp+
  have b: "replace_most_tested_animal Size_First (example_6_2\<lparr>tests := Inr [], t := 0\<rparr>) False =
      Inl UndefinedBehaviour"
    "replace_most_tested_animal Capture_First (example_6_2\<lparr>tests := Inr [], t := 0\<rparr>) False =
      Inl UndefinedBehaviour"
    by code_simp+
  have c: "map (positive_tests [''1.....'']) [0 ..< 6] = [1, 0, 0, 0, 0, 0]"
    by code_simp
  from a b c show ?thesis
    by (simp add: rule_1_2_def kv_second_def example_6_2_def)
qed

theorem most_tested_count_guard_witness:
  "tests example_5_3 = Inr [''11...'', ''1.1..'', ''.11.1''] \<and>
   int (length [''11...'', ''1.1..'', ''.11.1'']) < int 5 - 1 \<and>
   (\<exists>i < 5. 2 \<le> positive_tests [''11...'', ''1.1..'', ''.11.1''] i) \<and>
   (\<exists>cand. replace_most_tested_animal Size_First example_5_3 False = Inr cand) \<and>
   (\<exists>cand. replace_most_tested_animal Capture_First example_5_3 False = Inr cand) \<and>
   tests example_6_2 = Inr [''1.....''] \<and>
   replace_most_tested_animal Size_First example_6_2 True = Inl AssertMostTested \<and>
   replace_most_tested_animal Capture_First example_6_2 True = Inl AssertMostTested \<and>
   rule_1_2 Size_First stop Map.empty 6 2 1 (Some example_6_2) = Some (Inl AssertMostTested) \<and>
   rule_1_2 Capture_First stop Map.empty 6 2 1 (Some example_6_2) = Some (Inl AssertMostTested)"
proof -
  have rows5: "tests example_5_3 = Inr [''11...'', ''1.1..'', ''.11.1'']"
    and rows6: "tests example_6_2 = Inr [''1.....'']"
    by (simp_all add: example_5_3_def example_6_2_def)
  have "\<forall>i \<in> set [0 ..< 5]. \<forall>j \<in> set [0 ..< 5]. i \<noteq> j \<longrightarrow>
      column [''11...'', ''1.1..'', ''.11.1''] i \<noteq> column [''11...'', ''1.1..'', ''.11.1''] j"
    by code_simp
  then have distinct: "\<forall>i < 5. \<forall>j < 5. i \<noteq> j \<longrightarrow>
      column [''11...'', ''1.1..'', ''.11.1''] i \<noteq> column [''11...'', ''1.1..'', ''.11.1''] j"
    by (simp only: all_less_upt)
  have "\<forall>i \<in> set [0 ..< 6]. positive_tests [''1.....''] i < 2"
    by code_simp
  then have few: "\<forall>i < 6. positive_tests [''1.....''] i < 2"
    by (simp only: all_less_upt)
  have g5: "(\<exists>i < 5. 2 \<le> positive_tests [''11...'', ''1.1..'', ''.11.1''] i) \<and>
      (\<exists>cand. replace_most_tested_animal ao example_5_3 False = Inr cand)" for ao
    using most_tested_count_guard [OF rows5, where N = 5 and w = False and d = 2 and n = 6
        and tt = 1 and rec = stop and m = Map.empty and ao = ao] distinct
    by simp
  have g6: "replace_most_tested_animal ao example_6_2 True = Inl AssertMostTested \<and>
      rule_1_2 ao stop Map.empty 6 2 1 (Some example_6_2) = Some (Inl AssertMostTested)" for ao
    using most_tested_count_guard [OF rows6, where N = 6 and w = True and d = 2 and n = 6
        and tt = 1 and rec = stop and m = Map.empty and ao = ao] few
    by simp
  from g5 [of Size_First] g5 [of Capture_First] g6 [of Size_First] g6 [of Capture_First]
    rows5 rows6
  show ?thesis by simp
qed

text \<open>
  Claim C6, as the code has it. Once rules 1 and 2 have run to the table \<open>m1\<close>, rule 3
  proposes the strategy it reads then, with the same rows and the same test count and
  not marked guaranteed best, for \<open>(n, d - 1)\<close>, when \<open>2 < d < n - 1\<close> and the test count read
  on entry is below \<open>n - 1\<close>; otherwise it proposes nothing. Rules 4 and 5 follow. The order
  of evaluation \<open>ao\<close> enters through rules 1 and 2 only.
\<close>

theorem d_relaxation:
  assumes s0: "kv_second m (n, d) ext = Inr s0"
    and m1: "rule_1_2 ao rec m n d (t s0) ext = Some (Inr m1)"
    and s: "kv_second m1 (n, d) ext = Inr s"
  shows "derive_from ao rec m n d ext =
           and_then
             (if 2 < d \<and> d < n - 1 \<and> t s0 < n - 1
              then propose rec m1 n (d - 1)
                     \<lparr>tests = tests s, t = t s, guaranteed_best = GB_No,
                      belongs_in_file = BF_No\<rparr>
              else Some (Inr m1)) (\<lambda>m2.
           and_then (rule_4 rec m2 n d (t s0) ext) (\<lambda>m3.
           rule_5 rec m3 n d ext))"
proof -
  have "rule_3 rec m1 n d (t s0) ext =
      (if 2 < d \<and> d < n - 1 \<and> t s0 < n - 1
       then propose rec m1 n (d - 1)
              \<lparr>tests = tests s, t = t s, guaranteed_best = GB_No, belongs_in_file = BF_No\<rparr>
       else Some (Inr m1))"
    using s unfolding rule_3_def by simp
  with s0 m1 show ?thesis
    by (simp add: derive_from_def Let_def and_then_def)
qed


text \<open>
  For \<open>(6, 3)\<close> and the worst-case strategy, \<open>2 < d < n - 1\<close> holds and \<open>t = n - 1\<close>. The run,
  which needs no recursive call, leaves a table with seven tests under \<open>(6, 2)\<close> as it is,
  although the five tests of the strategy would have replaced them.
\<close>

theorem d_relaxation_counterexample:
  "(2::int) < 3 \<and> (3::int) < 6 - 1 \<and>
   add_solutions_derived_from Size_First 1
     [(6, 2) \<mapsto> \<lparr>tests = Inr (replicate 7 ''111111''), t = 7, guaranteed_best = GB_No,
                  belongs_in_file = BF_No\<rparr>]
     6 3 (Some (worst_case_strategy 6 GB_Yes)) =
   Some (Inr [(6, 2) \<mapsto> \<lparr>tests = Inr (replicate 7 ''111111''), t = 7,
                 guaranteed_best = GB_No, belongs_in_file = BF_No\<rparr>]) \<and>
   add_solutions_derived_from Capture_First 1
     [(6, 2) \<mapsto> \<lparr>tests = Inr (replicate 7 ''111111''), t = 7, guaranteed_best = GB_No,
                  belongs_in_file = BF_No\<rparr>]
     6 3 (Some (worst_case_strategy 6 GB_Yes)) =
   Some (Inr [(6, 2) \<mapsto> \<lparr>tests = Inr (replicate 7 ''111111''), t = 7,
                 guaranteed_best = GB_No, belongs_in_file = BF_No\<rparr>]) \<and>
   overwrite_if_better
     [(6, 2) \<mapsto> \<lparr>tests = Inr (replicate 7 ''111111''), t = 7, guaranteed_best = GB_No,
                  belongs_in_file = BF_No\<rparr>]
     6 2 \<lparr>tests = tests (worst_case_strategy 6 GB_Yes), t = t (worst_case_strategy 6 GB_Yes),
           guaranteed_best = GB_No, belongs_in_file = BF_No\<rparr> =
   Inr ([(6, 2) \<mapsto> \<lparr>tests = tests (worst_case_strategy 6 GB_Yes), t = 5,
                      guaranteed_best = GB_No, belongs_in_file = BF_No\<rparr>], True)"
  by (simp add: derive_from_def rule_1_2_def rule_3_def rule_4_def rule_5_def and_then_def
      kv_second_def propose_def overwrite_if_better_def isBetterThan_def
      worst_case_strategy_def Let_def)

theorem d_relaxation_witness:
  "kv_second [(6, 2) \<mapsto> worst_case_strategy 6 GB_No] (6, 3) (Some example_6_3) =
     Inr example_6_3 \<and>
   rule_1_2 Size_First stop [(6, 2) \<mapsto> worst_case_strategy 6 GB_No] 6 3 (t example_6_3)
     (Some example_6_3) = Some (Inr [(6, 2) \<mapsto> worst_case_strategy 6 GB_No]) \<and>
   derive_from Size_First stop [(6, 2) \<mapsto> worst_case_strategy 6 GB_No] 6 3
       (Some example_6_3) =
     Some (Inr [(6, 2) \<mapsto> \<lparr>tests = Inr [''1111..'', ''11..11'', ''1.1.1.'', ''.11..1''],
                  t = 4, guaranteed_best = GB_No, belongs_in_file = BF_No\<rparr>]) \<and>
   rule_1_2 Capture_First stop [(6, 2) \<mapsto> worst_case_strategy 6 GB_No] 6 3 (t example_6_3)
     (Some example_6_3) = Some (Inr [(6, 2) \<mapsto> worst_case_strategy 6 GB_No]) \<and>
   derive_from Capture_First stop [(6, 2) \<mapsto> worst_case_strategy 6 GB_No] 6 3
       (Some example_6_3) =
     Some (Inr [(6, 2) \<mapsto> \<lparr>tests = Inr [''1111..'', ''11..11'', ''1.1.1.'', ''.11..1''],
                  t = 4, guaranteed_best = GB_No, belongs_in_file = BF_No\<rparr>])"
proof -
  let ?m = "[(6, 2) \<mapsto> worst_case_strategy 6 GB_No]"
  have s: "kv_second ?m (6, 3) (Some example_6_3) = Inr example_6_3"
    by (simp add: kv_second_def)
  have c1: "replace_most_tested_animal Size_First example_6_3 False =
      Inr \<lparr>tests = Inr [''111..'', ''1..11'', ''.1.1.'', ''11..1''], t = 4,
          guaranteed_best = GB_No, belongs_in_file = BF_No\<rparr>"
    "replace_most_tested_animal Capture_First example_6_3 False =
      Inr \<lparr>tests = Inr [''111..'', ''1..11'', ''.1.1.'', ''11..1''], t = 0,
          guaranteed_best = GB_No, belongs_in_file = BF_No\<rparr>"
    by code_simp+
  have c2: "replace_most_tested_animal Size_First example_6_3 True =
      Inr \<lparr>tests = Inr [''11..1''], t = 1, guaranteed_best = GB_No, belongs_in_file = BF_No\<rparr>"
    "replace_most_tested_animal Capture_First example_6_3 True =
      Inr \<lparr>tests = Inr [''11..1''], t = 0, guaranteed_best = GB_No, belongs_in_file = BF_No\<rparr>"
    by code_simp+
  have m1: "rule_1_2 ao stop ?m 6 3 (t example_6_3) (Some example_6_3) = Some (Inr ?m)" for ao
    using c1 c2
    by (cases ao)
      (simp_all add: rule_1_2_def kv_second_def and_then_def propose_def overwrite_if_better_def
        example_6_3_def)
  have run: "derive_from ao stop ?m 6 3 (Some example_6_3) =
      Some (Inr [(6, 2) \<mapsto> \<lparr>tests = Inr [''1111..'', ''11..11'', ''1.1.1.'', ''.11..1''],
                  t = 4, guaranteed_best = GB_No, belongs_in_file = BF_No\<rparr>])" for ao
    using d_relaxation [OF s m1 s, of ao] s m1 [of ao]
    by (simp add: rule_4_def rule_5_def and_then_def kv_second_def propose_def
        overwrite_if_better_def isBetterThan_def worst_case_strategy_def example_6_3_def
        stop_def test_last_animal_individually_def)
  from s m1 [of Size_First] m1 [of Capture_First] run [of Size_First] run [of Capture_First]
  show ?thesis by simp
qed

section \<open>The two file formats\<close>

text \<open>
  The solution file holds one record per strategy: a header line, then the rows as a plain
  grid (\<open>Strategy::to_string\<close>) or, for more than 150 animals, the columns as hexadecimal
  numbers (\<open>Strategy::to_emathgroup_string\<close>). \<open>write_solutions_to_file\<close> ends every record
  with one more line feed; \<open>read_solutions_from_file\<close> reads both forms back.
\<close>

subsection \<open>Numbers as text\<close>

text \<open>
  \<open>operator<<\<close> prints an \<open>int\<close> in decimal, with a minus sign when negative, and under
  \<open>std::hex\<close> an \<open>unsigned long long\<close> in lower-case hexadecimal, both without leading zeros
  and without a prefix. \<open>digits b v\<close> is the numeral of \<open>v\<close> in base \<open>b\<close>.
\<close>

definition digit_char :: "nat \<Rightarrow> char" where
  "digit_char v = (if v < 10 then char_of (48 + v) else char_of (87 + v))"

function digits :: "nat \<Rightarrow> nat \<Rightarrow> string" where
  "digits b v = (if b < 2 \<or> v < b then [digit_char v]
                 else digits b (v div b) @ [digit_char (v mod b)])"
  by pat_completeness auto
termination
  by (relation "measure (\<lambda>(b, v). v)") auto

declare digits.simps [simp del]

definition show_int :: "int \<Rightarrow> string" where
  "show_int i = (if i < 0 then CHR ''-'' # digits 10 (nat (- i)) else digits 10 (nat i))"

definition to_hex :: "64 word \<Rightarrow> string" where
  "to_hex bits = digits 16 (unat bits)"

subsection \<open>Writing a record\<close>

text \<open>
  Both writers start with the same header, \<open>N=\<close>, \<open>D=\<close>, \<open>T=\<close> and the flag as \<open>1\<close> or \<open>0\<close>.
  \<open>header_line\<close> is the line without its line feed.
\<close>

definition header_line :: "int \<Rightarrow> int \<Rightarrow> Strategy \<Rightarrow> string" where
  "header_line n d s =
     ''N='' @ show_int n @ '' D='' @ show_int d @ '' T='' @ show_int (t s) @
     '' guaranteed_best='' @ [if guaranteed_best s = GB_Yes then CHR ''1'' else CHR ''0'']"

definition header :: "int \<Rightarrow> int \<Rightarrow> Strategy \<Rightarrow> string" where
  "header n d s = header_line n d s @ [CHR 0x0A]"

text \<open>
  \<open>to_string\<close> calls the closure and prints every row on a line of its own. The field \<open>t\<close>
  appears in the header only; the number of rows printed is that of the rows returned.
\<close>

definition to_string :: "int \<Rightarrow> int \<Rightarrow> Strategy \<Rightarrow> error + string" where
  "to_string n d s =
     (case tests s of
        Inl e \<Rightarrow> Inl e
      | Inr concrete_tests \<Rightarrow>
          Inr (header n d s @ concat (map (\<lambda>test. test @ [CHR 0x0A]) concrete_tests)))"

text \<open>
  The packed form prints, for each column \<open>c < n\<close>, the number whose bit \<open>r\<close> says whether row
  \<open>r\<close> tests animal \<open>c\<close>. The inner loop runs \<open>r\<close> from \<open>t - 1\<close> down to \<open>0\<close> and shifts the
  64-bit word \<open>bits\<close> left once per row, so a bit shifted past position 63 is lost.
  \<open>column_bits\<close> is that loop.
\<close>

definition column_bits :: "string list \<Rightarrow> int \<Rightarrow> nat \<Rightarrow> 64 word" where
  "column_bits concrete_tests tt c =
     foldl (\<lambda>bits r. push_bit 1 bits OR (if tested (concrete_tests ! r) c then 1 else 0))
       0 (rev [0 ..< nat tt])"

text \<open>
  The numbers are separated by a space, or by a line feed when the line would grow past
  75 characters; \<open>wordwrap\<close> is the length of the line so far and starts at 10, the length of
  the marker \<open>emathgroup\<close>.
\<close>

fun emath_tokens :: "nat \<Rightarrow> string list \<Rightarrow> string" where
  "emath_tokens wordwrap [] = []"
| "emath_tokens wordwrap (hexbits # rest) =
     (if wordwrap + 1 + length hexbits > 75
      then [CHR 0x0A] @ hexbits @ emath_tokens (length hexbits) rest
      else '' '' @ hexbits @ emath_tokens (wordwrap + 1 + length hexbits) rest)"

text \<open>
  \<open>concrete_tests[r][c]\<close> is read for every \<open>r < t\<close> and \<open>c < n\<close>. Reading a row the vector does
  not have, or a character beyond the terminator of a row, is undefined; the character at
  the length of a row is the terminator, which is not \<open>'1'\<close>, as \<open>tested\<close> answers.
\<close>

definition to_emathgroup_string :: "int \<Rightarrow> int \<Rightarrow> Strategy \<Rightarrow> error + string" where
  "to_emathgroup_string n d s =
     (case tests s of
        Inl e \<Rightarrow> Inl e
      | Inr concrete_tests \<Rightarrow>
          if 0 < n \<and> (length concrete_tests < nat (t s) \<or>
                      (\<exists>r < nat (t s). length (concrete_tests ! r) + 1 < nat n))
          then Inl UndefinedBehaviour
          else Inr (header n d s @ ''emathgroup'' @
                    emath_tokens 10 (map (\<lambda>c. to_hex (column_bits concrete_tests (t s) c))
                                      [0 ..< nat n]) @
                    [CHR 0x0A]))"

subsection \<open>The input stream\<close>

text \<open>
  The stream is the text still to be read and the two state bits the reader depends on.
  An operation on a stream that is not good (\<open>good_stream\<close>: neither bit is set) sets
  \<open>failbit\<close> and leaves its target as it was.

  \<^item> \<open>std::getline\<close> takes the characters up to the next line feed and drops the line feed;
    at the end of the text it sets \<open>eofbit\<close>, and \<open>failbit\<close> too when it took nothing.
  \<^item> \<open>get\<close> takes one character; at the end of the text it fails and returns \<open>EOF\<close>, which
    the source stores in a \<open>char\<close>.
  \<^item> \<open>putback\<close> clears \<open>eofbit\<close> and, unless the stream has failed, puts the character back.
  \<^item> \<open>operator>>\<close> into a string skips white space and takes the characters up to the next
    white space; it fails when only white space is left.
\<close>

record istream =
  chars :: string
  eofbit :: bool
  failbit :: bool

definition good_stream :: "istream \<Rightarrow> bool" where
  "good_stream s = (\<not> eofbit s \<and> \<not> failbit s)"

definition isspace :: "char \<Rightarrow> bool" where
  "isspace c = (c = CHR '' '' \<or> (9 \<le> (of_char c :: nat) \<and> (of_char c :: nat) \<le> 13))"

definition getline :: "istream \<Rightarrow> string \<Rightarrow> string \<times> istream" where
  "getline s line =
     (if \<not> good_stream s then (line, s\<lparr>failbit := True\<rparr>)
      else let l = takeWhile (\<lambda>c. c \<noteq> CHR 0x0A) (chars s);
               rest = dropWhile (\<lambda>c. c \<noteq> CHR 0x0A) (chars s) in
        if rest = [] then (l, s\<lparr>chars := [], eofbit := True, failbit := (l = [])\<rparr>)
        else (l, s\<lparr>chars := tl rest\<rparr>))"

definition get :: "istream \<Rightarrow> char \<times> istream" where
  "get s =
     (if \<not> good_stream s then (CHR 0xFF, s\<lparr>failbit := True\<rparr>)
      else case chars s of
        [] \<Rightarrow> (CHR 0xFF, s\<lparr>eofbit := True, failbit := True\<rparr>)
      | c # cs \<Rightarrow> (c, s\<lparr>chars := cs\<rparr>))"

definition putback :: "istream \<Rightarrow> char \<Rightarrow> istream" where
  "putback s c =
     (if failbit s then s\<lparr>eofbit := False\<rparr>
      else s\<lparr>chars := c # chars s, eofbit := False\<rparr>)"

definition extract_word :: "istream \<Rightarrow> string \<Rightarrow> string \<times> istream" where
  "extract_word s word =
     (if \<not> good_stream s then (word, s\<lparr>failbit := True\<rparr>)
      else let rest = dropWhile isspace (chars s) in
        if rest = [] then (word, s\<lparr>chars := [], eofbit := True, failbit := True\<rparr>)
        else (takeWhile (\<lambda>c. \<not> isspace c) rest,
              s\<lparr>chars := dropWhile (\<lambda>c. \<not> isspace c) rest,
                eofbit := (dropWhile (\<lambda>c. \<not> isspace c) rest = [])\<rparr>))"

subsection \<open>Scanning\<close>

text \<open>
  \<open>std::sscanf\<close> works on \<open>c_str()\<close>, the text up to the first null character. The conversion
  \<open>%d\<close> skips white space, then takes an optional sign and decimal digits; \<open>%llx\<close> does the
  same with hexadecimal digits after an optional \<open>0x\<close> or \<open>0X\<close>, and negates in the unsigned
  type after a minus sign. A conversion that finds no digit ends the scan, so that the
  count returned is too small and the assertion on it fails. A number that does not fit the
  target type is undefined behaviour. White space in the format matches any amount of white
  space, also none; other characters of the format match themselves.
\<close>

definition c_str :: "string \<Rightarrow> string" where
  "c_str line = takeWhile (\<lambda>c. c \<noteq> CHR 0x00) line"

definition dec_val :: "char \<Rightarrow> nat option" where
  "dec_val c = (if 48 \<le> (of_char c :: nat) \<and> (of_char c :: nat) \<le> 57
                then Some (of_char c - 48) else None)"

definition hex_val :: "char \<Rightarrow> nat option" where
  "hex_val c =
     (if 48 \<le> (of_char c :: nat) \<and> (of_char c :: nat) \<le> 57 then Some (of_char c - 48)
      else if 97 \<le> (of_char c :: nat) \<and> (of_char c :: nat) \<le> 102 then Some (of_char c - 87)
      else if 65 \<le> (of_char c :: nat) \<and> (of_char c :: nat) \<le> 70 then Some (of_char c - 55)
      else None)"

definition number :: "(char \<Rightarrow> nat option) \<Rightarrow> nat \<Rightarrow> string \<Rightarrow> nat" where
  "number val b ds = foldl (\<lambda>acc c. acc * b + the (val c)) 0 ds"

definition scan_sign :: "string \<Rightarrow> bool \<times> string" where
  "scan_sign s =
     (case s of
        c # cs \<Rightarrow> if c = CHR ''-'' then (True, cs) else if c = CHR ''+'' then (False, cs)
                  else (False, s)
      | [] \<Rightarrow> (False, s))"

definition scan_d :: "string \<Rightarrow> error + (int \<times> string)" where
  "scan_d s =
     (let (neg, s1) = scan_sign (dropWhile isspace s);
          ds = takeWhile (\<lambda>c. dec_val c \<noteq> None) s1;
          v = (if neg then - int (number dec_val 10 ds) else int (number dec_val 10 ds)) in
      if ds = [] then Inl AssertMalformedHeader
      else if v < - (2 ^ 31) \<or> 2 ^ 31 \<le> v then Inl UndefinedBehaviour
      else Inr (v, dropWhile (\<lambda>c. dec_val c \<noteq> None) s1))"

definition scan_lit :: "string \<Rightarrow> string \<Rightarrow> error + string" where
  "scan_lit lit s = (if take (length lit) s = lit then Inr (drop (length lit) s)
                     else Inl AssertMalformedHeader)"

text \<open>
  \<open>std::sscanf(line.c_str(), "N=%d D=%d T=%d guaranteed_best=%d", ...)\<close> with the assertion
  \<open>rc == 4\<close>.
\<close>

definition scan_header :: "string \<Rightarrow> error + (int \<times> int \<times> int \<times> int)" where
  "scan_header line =
     (case scan_lit ''N='' (c_str line) of Inl e \<Rightarrow> Inl e | Inr s1 \<Rightarrow>
      case scan_d s1 of Inl e \<Rightarrow> Inl e | Inr (n, s2) \<Rightarrow>
      case scan_lit ''D='' (dropWhile isspace s2) of Inl e \<Rightarrow> Inl e | Inr s3 \<Rightarrow>
      case scan_d s3 of Inl e \<Rightarrow> Inl e | Inr (d, s4) \<Rightarrow>
      case scan_lit ''T='' (dropWhile isspace s4) of Inl e \<Rightarrow> Inl e | Inr s5 \<Rightarrow>
      case scan_d s5 of Inl e \<Rightarrow> Inl e | Inr (tt, s6) \<Rightarrow>
      case scan_lit ''guaranteed_best='' (dropWhile isspace s6) of Inl e \<Rightarrow> Inl e | Inr s7 \<Rightarrow>
      case scan_d s7 of Inl e \<Rightarrow> Inl e | Inr (gb, s8) \<Rightarrow> Inr (n, d, tt, gb))"

text \<open>
  \<open>std::sscanf(word.c_str(), "%llx", &bits)\<close> with the assertion \<open>rc == 1\<close>.
\<close>

definition scan_llx :: "string \<Rightarrow> error + 64 word" where
  "scan_llx s =
     (let (neg, s1) = scan_sign (dropWhile isspace s);
          s2 = (if take 2 s1 = ''0x'' \<or> take 2 s1 = ''0X'' then drop 2 s1 else s1);
          ds = takeWhile (\<lambda>c. hex_val c \<noteq> None) s2;
          v = number hex_val 16 ds in
      if ds = [] then Inl AssertMalformedToken
      else if 2 ^ 64 \<le> v then Inl UndefinedBehaviour
      else Inr (if neg then - word_of_nat v else word_of_nat v))"

subsection \<open>Reading one record\<close>

text \<open>
  One round of the loop over the columns of a packed record: the inner loop appends to
  every row \<open>r < t\<close> the character for bit \<open>r\<close> of \<open>bits\<close>.
\<close>

definition push_column :: "string list \<Rightarrow> 64 word \<Rightarrow> string list" where
  "push_column rows bits =
     map (\<lambda>(r, row). row @ [if bit bits r then CHR ''1'' else CHR ''.'']) (enumerate 0 rows)"

text \<open>
  The loop over the columns. Each round extracts a word, scans it and asserts
  \<open>bits < (1uLL << t)\<close>; the shift is undefined when \<open>t\<close> is 64 or more (a negative \<open>t\<close> does not
  get here, see \<open>read_record\<close>). A failed extraction leaves \<open>word\<close> as it was, and the scan then
  reads the old word again.
\<close>

fun emath_columns ::
  "nat \<Rightarrow> int \<Rightarrow> string \<Rightarrow> istream \<Rightarrow> string list \<Rightarrow> error + (string list \<times> istream)" where
  "emath_columns 0 tt word s rows = Inr (rows, s)"
| "emath_columns (Suc k) tt word s rows =
     (case extract_word s word of (word', s') \<Rightarrow>
      case scan_llx (c_str word') of
        Inl e \<Rightarrow> Inl e
      | Inr bits \<Rightarrow>
          if 64 \<le> tt then Inl UndefinedBehaviour
          else if \<not> unat bits < 2 ^ nat tt then Inl AssertBitsRange
          else emath_columns k tt word' s' (push_column rows bits))"

text \<open>
  The loop over the rows of a plain record, with the assertion \<open>line.size() == n\<close>. The
  comparison is made in \<open>size_t\<close>, where a negative \<open>n\<close> equals no length.
\<close>

fun plain_rows ::
  "nat \<Rightarrow> int \<Rightarrow> string \<Rightarrow> istream \<Rightarrow> string list \<Rightarrow> error + (string list \<times> istream)" where
  "plain_rows 0 n line s rows = Inr (rows, s)"
| "plain_rows (Suc k) n line s rows =
     (case getline s line of (line', s') \<Rightarrow>
      if int (length line') \<noteq> n then Inl AssertRowLength
      else plain_rows k n line' s' (rows @ [line']))"

text \<open>
  A stream over the contents of a file that has just been opened.
\<close>

definition istream_of :: "string \<Rightarrow> istream" where
  "istream_of text = \<lparr>chars = text, eofbit = False, failbit = False\<rparr>"

text \<open>
  The branch of \<open>read_solutions_from_file\<close> for a header line (lines 224 to 256). It scans
  the header, reads the rows, builds the strategy and hands it to \<open>preserve_from_file\<close>,
  which merges it into the table under its assertions on the key, on a guaranteed-best
  entry and on \<open>overwritten\<close>. The next character decides the form of the record. In the
  packed form \<open>tests.resize(t)\<close> converts \<open>t\<close> to \<open>size_t\<close>, and throws \<open>std::length_error\<close> for a
  negative \<open>t\<close>. The strategy is built by the constructor that sets \<open>t\<close> to the number of rows.
  The result is the table after the merge and the stream as the rows leave it.
\<close>

definition read_record :: "string \<Rightarrow> istream \<Rightarrow> table \<Rightarrow> error + (table \<times> istream)" where
  "read_record line s m =
     (case scan_header line of
        Inl e \<Rightarrow> Inl e
      | Inr (n, d, tt, gb) \<Rightarrow>
          case get s of (nextch, s1) \<Rightarrow>
          case (if nextch = CHR ''e'' then
                  case extract_word (putback s1 nextch) [] of (word, s2) \<Rightarrow>
                  if word \<noteq> ''emathgroup'' then Inl AssertEmathgroupWord
                  else if tt < 0 then Inl LengthError
                  else emath_columns (nat n) tt word s2 (replicate (nat tt) [])
                else plain_rows (nat tt) n line (putback s1 nextch) []) of
            Inl e \<Rightarrow> Inl e
          | Inr (rows, s3) \<Rightarrow>
              case preserve_from_file m n d
                     \<lparr>tests = Inr rows, t = int (length rows),
                      guaranteed_best = (if gb \<noteq> 0 then GB_Yes else GB_No),
                      belongs_in_file = BF_Yes\<rparr> of
                Inl e \<Rightarrow> Inl e
              | Inr m' \<Rightarrow> Inr (m', s3))"

text \<open>
  The loop of \<open>read_solutions_from_file\<close> (lines 222 to 260). It ends when \<open>std::getline\<close>
  fails. A line that starts with \<open>N=\<close> opens a record; another line is skipped, unless a
  record has been read before and the line is not empty, which fails the last assertion.
  The variable \<open>line\<close> of the source is shared with the loop over the rows of a plain record;
  what a record leaves in it is not read again, because the next \<open>std::getline\<close> either
  replaces it or fails and ends the loop.

  The loop returns because every round takes at least one character from the stream or
  leaves it in a state in which the next \<open>std::getline\<close> fails: \<open>remaining\<close> goes down.
\<close>

definition remaining :: "istream \<Rightarrow> nat" where
  "remaining s = length (chars s) + (if good_stream s then 1 else 0)"

lemma length_tl_dropWhile:
  "dropWhile P xs \<noteq> [] \<Longrightarrow> length (tl (dropWhile P xs)) < length xs"
  using length_dropWhile_le [of P xs] by (cases "dropWhile P xs") simp_all

lemma getline_progress:
  assumes nf: "\<not> failbit (snd (getline s line))"
  shows "remaining (snd (getline s line)) < remaining s"
proof (cases "good_stream s")
  case False
  with nf show ?thesis by (simp add: getline_def)
next
  case True
  let ?rest = "dropWhile (\<lambda>c. c \<noteq> CHR 0x0A) (chars s)"
  show ?thesis
  proof (cases "?rest = []")
    case True
    with nf \<open>good_stream s\<close> show ?thesis
      by (simp add: getline_def remaining_def good_stream_def Let_def)
  next
    case False
    from length_tl_dropWhile [OF False] \<open>good_stream s\<close> False show ?thesis
      by (simp add: getline_def remaining_def good_stream_def Let_def)
  qed
qed

lemma getline_remaining: "remaining (snd (getline s line)) \<le> remaining s"
proof (cases "failbit (snd (getline s line))")
  case False
  from getline_progress [OF this] show ?thesis by simp
next
  case True
  have "length (chars (snd (getline s line))) \<le> length (chars s)"
    using length_tl_dropWhile [of "\<lambda>c. c \<noteq> CHR 0x0A" "chars s"]
    by (auto simp: getline_def Let_def)
  with True show ?thesis by (simp add: remaining_def good_stream_def)
qed

lemma get_putback_remaining:
  "remaining (putback (snd (get s)) (fst (get s))) \<le> remaining s"
  by (auto simp: get_def putback_def remaining_def good_stream_def split: list.splits)

lemma extract_word_remaining: "remaining (snd (extract_word s word)) \<le> remaining s"
proof -
  have "length (dropWhile (\<lambda>c. \<not> isspace c) (dropWhile isspace (chars s))) \<le> length (chars s)"
    by (rule le_trans [OF length_dropWhile_le length_dropWhile_le])
  moreover have "length (dropWhile (\<lambda>c. \<not> isspace c) (dropWhile isspace (chars s))) < length (chars s)"
    if "dropWhile isspace (chars s) \<noteq> []"
  proof -
    from that obtain c cs where ccs: "dropWhile isspace (chars s) = c # cs"
      by (cases "dropWhile isspace (chars s)") simp_all
    then have "\<not> isspace c" using hd_dropWhile [of isspace "chars s"] by simp
    with ccs have "dropWhile (\<lambda>c. \<not> isspace c) (dropWhile isspace (chars s)) =
        dropWhile (\<lambda>c. \<not> isspace c) cs" by simp
    then have "length (dropWhile (\<lambda>c. \<not> isspace c) (dropWhile isspace (chars s))) \<le> length cs"
      by (simp add: length_dropWhile_le)
    moreover have "length (c # cs) \<le> length (chars s)"
      using length_dropWhile_le [of isspace "chars s"] ccs by simp
    ultimately show ?thesis by simp
  qed
  ultimately show ?thesis
    by (auto simp: extract_word_def remaining_def good_stream_def Let_def)
qed

lemma emath_columns_remaining:
  "emath_columns k tt word s rows = Inr (rows', s') \<Longrightarrow> remaining s' \<le> remaining s"
proof (induction k arbitrary: word s rows)
  case 0
  then show ?case by simp
next
  case (Suc k)
  obtain word1 s1 where ew: "extract_word s word = (word1, s1)" by (cases "extract_word s word")
  with extract_word_remaining [of s word] have le: "remaining s1 \<le> remaining s" by simp
  from Suc.prems ew obtain bits where
    "emath_columns k tt word1 s1 (push_column rows bits) = Inr (rows', s')"
    by (auto split: sum.splits if_splits)
  from Suc.IH [OF this] le show ?case by simp
qed

lemma plain_rows_remaining:
  "plain_rows k n line s rows = Inr (rows', s') \<Longrightarrow> remaining s' \<le> remaining s"
proof (induction k arbitrary: line s rows)
  case 0
  then show ?case by simp
next
  case (Suc k)
  obtain line1 s1 where gl: "getline s line = (line1, s1)" by (cases "getline s line")
  with getline_remaining [of s line] have le: "remaining s1 \<le> remaining s" by simp
  from Suc.prems gl have "plain_rows k n line1 s1 (rows @ [line1]) = Inr (rows', s')"
    by (auto split: if_splits)
  from Suc.IH [OF this] le show ?case by simp
qed

lemma read_record_remaining:
  assumes "read_record line s m = Inr (m', s')"
  shows "remaining s' \<le> remaining s"
proof -
  obtain nextch s1 where g: "get s = (nextch, s1)" by (cases "get s")
  with get_putback_remaining [of s] have pb: "remaining (putback s1 nextch) \<le> remaining s"
    by simp
  show ?thesis
  proof (cases "nextch = CHR ''e''")
    case True
    obtain word s2 where ew: "extract_word (putback s1 nextch) [] = (word, s2)"
      by (cases "extract_word (putback s1 nextch) []")
    with extract_word_remaining [of "putback s1 nextch" "[]"]
    have le: "remaining s2 \<le> remaining (putback s1 nextch)" by simp
    from assms g True ew obtain k tt rows where
      "emath_columns k tt word s2 (replicate (nat tt) []) = Inr (rows, s')"
      by (auto simp: read_record_def split: sum.splits if_splits prod.splits)
    from emath_columns_remaining [OF this] le pb show ?thesis by simp
  next
    case False
    with assms g obtain k n' rows where
      "plain_rows k n' line (putback s1 nextch) [] = Inr (rows, s')"
      by (auto simp: read_record_def split: sum.splits if_splits prod.splits)
    from plain_rows_remaining [OF this] pb show ?thesis by simp
  qed
qed

function read_loop :: "istream \<Rightarrow> bool \<Rightarrow> table \<Rightarrow> error + table" where
  "read_loop s seen_a_grid m =
     (case getline s [] of (line, s1) \<Rightarrow>
        if failbit s1 then Inr m
        else if take 2 line = ''N='' then
          (case read_record line s1 m of
             Inl e \<Rightarrow> Inl e
           | Inr (m', s2) \<Rightarrow> read_loop s2 True m')
        else if seen_a_grid \<and> line \<noteq> [] then Inl AssertAfterFirstGrid
        else read_loop s1 seen_a_grid m)"
  by pat_completeness auto
termination
proof (relation "measure (\<lambda>(s, seen_a_grid, m). remaining s)"; simp)
  fix s :: istream and m :: table and x y b xa ya
  assume gl: "(x, y) = getline s []" and nf: "\<not> failbit y"
    and rr: "read_record x y m = Inr b" and b: "(xa, ya) = b"
  from gl [symmetric] nf getline_progress [of s "[]"] have "remaining y < remaining s" by simp
  moreover from rr b [symmetric] have "remaining ya \<le> remaining y"
    by (simp add: read_record_remaining)
  ultimately show "remaining ya < remaining s" by simp
next
  fix s :: istream and x y
  assume gl: "(x, y) = getline s []" and nf: "\<not> failbit y"
  from gl [symmetric] nf getline_progress [of s "[]"] show "remaining y < remaining s" by simp
qed

declare read_loop.simps [simp del]

text \<open>
  \<open>read_solutions_from_file\<close> (lines 214 to 261), on the contents of the file, or on \<open>None\<close>
  for a file that cannot be opened.
\<close>

definition read_solutions_from_file :: "string option \<Rightarrow> table \<Rightarrow> error + table" where
  "read_solutions_from_file file m =
     (case file of
        None \<Rightarrow> Inl FailedToOpen
      | Some text \<Rightarrow> read_loop (istream_of text) False m)"

text \<open>
  The values of a C++ \<open>int\<close>.
\<close>

definition int_range :: "int \<Rightarrow> bool" where
  "int_range i = (- (2 ^ 31) \<le> i \<and> i < 2 ^ 31)"

text \<open>
  The rows that the columns \<open>vs\<close> stand for, when there are \<open>T\<close> rows: the character of row \<open>r\<close>
  for a column is bit \<open>r\<close> of its number.
\<close>

definition decoded_rows :: "64 word list \<Rightarrow> nat \<Rightarrow> string list" where
  "decoded_rows vs T =
     map (\<lambda>r. map (\<lambda>v. if bit v r then CHR ''1'' else CHR ''.'') vs) [0 ..< T]"

text \<open>
  A strategy as the first constructor builds it from its rows.
\<close>

definition example_wide :: "string list \<Rightarrow> Strategy" where
  "example_wide rows = \<lparr>tests = Inr rows, t = int (length rows), guaranteed_best = GB_No,
     belongs_in_file = BF_Yes\<rparr>"

subsection \<open>Numerals are read back\<close>

lemma of_char_digit_char: "v < 16 \<Longrightarrow> (of_char (digit_char v) :: nat) = (if v < 10 then 48 + v else 87 + v)"
  by (simp add: digit_char_def)

lemma dec_val_digit_char: "v < 10 \<Longrightarrow> dec_val (digit_char v) = Some v"
  by (simp add: dec_val_def of_char_digit_char)

lemma hex_val_digit_char: "v < 16 \<Longrightarrow> hex_val (digit_char v) = Some v"
  by (simp add: hex_val_def of_char_digit_char)

lemma digits_neq_Nil [simp]: "digits b v \<noteq> []"
  by (subst digits.simps) simp

lemma digits_val:
  assumes "2 \<le> b" and "\<forall>v < b. val (digit_char v) = Some v"
  shows "(\<forall>c \<in> set (digits b v). val c \<noteq> None) \<and> number val b (digits b v) = v"
  using assms
proof (induction b v rule: digits.induct)
  case (1 b v)
  note b = \<open>2 \<le> b\<close> and val = \<open>\<forall>v < b. val (digit_char v) = Some v\<close>
  show ?case
  proof (cases "v < b")
    case True
    with val have "val (digit_char v) = Some v" by simp
    moreover from True have "digits b v = [digit_char v]"
      by (subst digits.simps) simp
    ultimately show ?thesis by (simp add: number_def)
  next
    case False
    with 1 have IH: "(\<forall>c \<in> set (digits b (v div b)). val c \<noteq> None)"
      "number val b (digits b (v div b)) = v div b" by simp_all
    have "v mod b < b" using b by simp
    with val have m: "val (digit_char (v mod b)) = Some (v mod b)" by simp
    from False b have eq: "digits b v = digits b (v div b) @ [digit_char (v mod b)]"
      by (subst digits.simps) simp
    from IH m show ?thesis
      unfolding eq by (simp add: number_def)
  qed
qed

lemma hd_digits:
  assumes "2 \<le> b"
  shows "\<exists>v'. v' < b \<and> (v' = 0 \<longrightarrow> v = 0) \<and> hd (digits b v) = digit_char v'"
  using assms
proof (induction b v rule: digits.induct)
  case (1 b v)
  show ?case
  proof (cases "v < b")
    case True
    with 1(2) show ?thesis by (subst digits.simps) auto
  next
    case False
    with 1 obtain v' where v': "v' < b" "v' = 0 \<longrightarrow> v div b = 0"
      "hd (digits b (v div b)) = digit_char v'" by auto
    from False 1(2) have "v div b \<noteq> 0" by (simp add: div_eq_0_iff)
    with v' have "v' \<noteq> 0" by auto
    moreover from False 1(2) have "hd (digits b v) = hd (digits b (v div b))"
      by (subst digits.simps) simp
    ultimately show ?thesis using v' by auto
  qed
qed

lemma digits_zero: "2 \<le> b \<Longrightarrow> digits b 0 = [digit_char 0]"
  by (subst digits.simps) simp

lemma dec_val_hex_val: "dec_val c \<noteq> None \<Longrightarrow> hex_val c \<noteq> None"
  by (simp add: dec_val_def hex_val_def split: if_splits)

lemma hex_val_plain:
  assumes "hex_val c \<noteq> None"
  shows "\<not> isspace c" and "c \<noteq> CHR ''-''" and "c \<noteq> CHR ''+''" and "c \<noteq> CHR 0x00"
    and "c \<noteq> CHR 0x0A" and "c \<noteq> CHR ''x''" and "c \<noteq> CHR ''X''"
  using assms by (auto simp: hex_val_def isspace_def split: if_splits)

lemma span_digits:
  assumes "\<forall>c \<in> set ds. P c" and "rest = [] \<or> \<not> P (hd rest)"
  shows "takeWhile P (ds @ rest) = ds" and "dropWhile P (ds @ rest) = rest"
proof -
  from assms(2) have "takeWhile P rest = []" "dropWhile P rest = rest"
    by (cases rest; auto)+
  with assms(1) show "takeWhile P (ds @ rest) = ds" "dropWhile P (ds @ rest) = rest"
    by (simp_all add: takeWhile_append2 dropWhile_append2)
qed

lemma dec_digit_char: "\<forall>v < 10. dec_val (digit_char v) = Some v"
  by (simp add: dec_val_digit_char)

lemma hex_digit_char: "\<forall>v < 16. hex_val (digit_char v) = Some v"
  by (simp add: hex_val_digit_char)

lemmas dec_digits = digits_val [of 10 dec_val, OF _ dec_digit_char, simplified]
lemmas hex_digits = digits_val [of 16 hex_val, OF _ hex_digit_char, simplified]

lemma digit_plain:
  assumes "dec_val c \<noteq> None"
  shows "\<not> isspace c \<and> c \<noteq> CHR 0x00 \<and> c \<noteq> CHR 0x0A"
  using hex_val_plain [OF dec_val_hex_val [OF assms]] by simp

lemma show_int_plain:
  assumes "c \<in> set (show_int i)"
  shows "\<not> isspace c \<and> c \<noteq> CHR 0x00 \<and> c \<noteq> CHR 0x0A"
proof (cases "c = CHR ''-''")
  case True
  then show ?thesis by (simp add: isspace_def)
next
  case False
  with assms have "c \<in> set (digits 10 (nat (- i))) \<or> c \<in> set (digits 10 (nat i))"
    by (auto simp: show_int_def split: if_splits)
  then have "dec_val c \<noteq> None"
    using dec_digits [of "nat (- i)"] dec_digits [of "nat i"] by blast
  then show ?thesis by (rule digit_plain)
qed

lemma scan_d_show_int:
  assumes "- (2 ^ 31) \<le> i" and "i < 2 ^ 31" and "rest = [] \<or> dec_val (hd rest) = None"
  shows "scan_d (show_int i @ rest) = Inr (i, rest)"
proof -
  let ?ds = "digits 10 (nat \<bar>i\<bar>)"
  have ds: "\<forall>c \<in> set ?ds. dec_val c \<noteq> None" "number dec_val 10 ?ds = nat \<bar>i\<bar>"
    using dec_digits [of "nat \<bar>i\<bar>"] by simp_all
  from hd_digits [of 10 "nat \<bar>i\<bar>"] obtain v' where "v' < 10" "hd ?ds = digit_char v'"
    by auto
  then have "dec_val (hd ?ds) \<noteq> None" by (simp add: dec_val_digit_char)
  note hd = hex_val_plain [OF dec_val_hex_val [OF this]]
  obtain c cs where cs: "?ds = c # cs" by (cases ?ds) simp_all
  with hd have c: "\<not> isspace c" "c \<noteq> CHR ''-''" "c \<noteq> CHR ''+''" by simp_all
  from assms(3) have rest: "rest = [] \<or> \<not> (dec_val (hd rest) \<noteq> None)" by simp
  note span = span_digits [OF ds(1) rest]
  show ?thesis
  proof (cases "i < 0")
    case True
    then have "show_int i = CHR ''-'' # ?ds" by (simp add: show_int_def abs_if)
    with True ds(2) span assms(1) show ?thesis
      by (simp add: scan_d_def scan_sign_def isspace_def Let_def)
  next
    case False
    then have "show_int i = ?ds" by (simp add: show_int_def abs_if)
    with False ds(2) span [unfolded cs] c cs assms(2) show ?thesis
      by (simp add: scan_d_def scan_sign_def Let_def)
  qed
qed

lemma show_int_0_1: "show_int 0 = ''0''" "show_int 1 = ''1''"
  by code_simp+

lemma show_int_plain_all:
  "\<forall>c \<in> set (show_int i). c \<noteq> CHR 0x00 \<and> c \<noteq> CHR 0x0A"
  using show_int_plain by blast

lemma header_line_plain:
  "\<forall>c \<in> set (header_line n d s). c \<noteq> CHR 0x00 \<and> c \<noteq> CHR 0x0A"
  unfolding header_line_def
  by (simp add: ball_Un show_int_plain_all)

lemma c_str_header_line: "c_str (header_line n d s) = header_line n d s"
  unfolding c_str_def using header_line_plain [of n d s]
  by (simp add: takeWhile_eq_all_conv)

subsection \<open>Lines and tokens are read back\<close>

lemma scan_header_line:
  assumes "int_range n" and "int_range d" and "int_range (t s)"
  shows "scan_header (header_line n d s) =
           Inr (n, d, t s, if guaranteed_best s = GB_Yes then 1 else 0)"
proof -
  let ?g = "if guaranteed_best s = GB_Yes then CHR ''1'' else CHR ''0''"
  let ?r3 = "'' guaranteed_best='' @ [?g]"
  let ?r2 = "'' T='' @ show_int (t s) @ ?r3"
  let ?r1 = "'' D='' @ show_int d @ ?r2"
  have l1: "scan_lit ''N='' (header_line n d s) = Inr (show_int n @ ?r1)"
    by (simp add: scan_lit_def header_line_def)
  have d1: "scan_d (show_int n @ ?r1) = Inr (n, ?r1)"
    using assms(1) by (intro scan_d_show_int) (simp_all add: int_range_def dec_val_def)
  have l2: "scan_lit ''D='' (dropWhile isspace ?r1) = Inr (show_int d @ ?r2)"
    by (simp add: scan_lit_def isspace_def)
  have d2: "scan_d (show_int d @ ?r2) = Inr (d, ?r2)"
    using assms(2) by (intro scan_d_show_int) (simp_all add: int_range_def dec_val_def)
  have l3: "scan_lit ''T='' (dropWhile isspace ?r2) = Inr (show_int (t s) @ ?r3)"
    by (simp add: scan_lit_def isspace_def)
  have d3: "scan_d (show_int (t s) @ ?r3) = Inr (t s, ?r3)"
    using assms(3) by (intro scan_d_show_int) (simp_all add: int_range_def dec_val_def)
  have l4: "scan_lit ''guaranteed_best='' (dropWhile isspace ?r3) = Inr [?g]"
    by (simp add: scan_lit_def isspace_def)
  have d4: "scan_d [?g] = Inr (if guaranteed_best s = GB_Yes then 1 else 0, [])"
    using scan_d_show_int [of 1 "[]"] scan_d_show_int [of 0 "[]"]
    by (simp add: show_int_0_1)
  show ?thesis
    unfolding scan_header_def c_str_header_line
    by (simp only: l1 d1 l2 d2 l3 d3 l4 d4 sum.case prod.case)
qed

lemma getline_line:
  assumes "good_stream s" and "chars s = l @ CHR 0x0A # rest" and "CHR 0x0A \<notin> set l"
  shows "getline s line = (l, s\<lparr>chars := rest\<rparr>)"
proof -
  from assms(3) have "takeWhile (\<lambda>c. c \<noteq> CHR 0x0A) (l @ CHR 0x0A # rest) = l"
    "dropWhile (\<lambda>c. c \<noteq> CHR 0x0A) (l @ CHR 0x0A # rest) = CHR 0x0A # rest"
    by (induction l) auto
  with assms(1,2) show ?thesis by (simp add: getline_def Let_def)
qed

lemma get_putback:
  assumes "good_stream s" and "chars s = c # cs"
  shows "get s = (c, s\<lparr>chars := cs\<rparr>)" and "putback (s\<lparr>chars := cs\<rparr>) c = s"
  using assms by (simp_all add: get_def putback_def good_stream_def)

lemma plain_rows_read:
  assumes "good_stream s" and "chars s = concat (map (\<lambda>test. test @ [CHR 0x0A]) rows) @ rest"
    and "\<forall>test \<in> set rows. int (length test) = n \<and> CHR 0x0A \<notin> set test"
  shows "plain_rows (length rows) n line s acc = Inr (acc @ rows, s\<lparr>chars := rest\<rparr>)"
  using assms
proof (induction rows arbitrary: line s acc)
  case Nil
  then show ?case by simp
next
  case (Cons test rows)
  from Cons.prems have gl: "getline s line =
      (test, s\<lparr>chars := concat (map (\<lambda>test. test @ [CHR 0x0A]) rows) @ rest\<rparr>)"
    by (intro getline_line) simp_all
  have "plain_rows (length rows) n test
      (s\<lparr>chars := concat (map (\<lambda>test. test @ [CHR 0x0A]) rows) @ rest\<rparr>) (acc @ [test]) =
      Inr ((acc @ [test]) @ rows,
           s\<lparr>chars := concat (map (\<lambda>test. test @ [CHR 0x0A]) rows) @ rest\<rparr>\<lparr>chars := rest\<rparr>)"
    using Cons.prems by (intro Cons.IH) (simp_all add: good_stream_def)
  with gl Cons.prems(3) show ?case by simp
qed

lemma extract_word_token:
  assumes "good_stream s" and "chars s = sep @ tok @ rest" and "\<forall>c \<in> set sep. isspace c"
    and "tok \<noteq> []" and "\<forall>c \<in> set tok. \<not> isspace c" and "rest \<noteq> []" and "isspace (hd rest)"
  shows "extract_word s word = (tok, s\<lparr>chars := rest\<rparr>)"
proof -
  from assms(4,5) have tok: "\<not> isspace (hd tok)" by (cases tok) auto
  have skip: "dropWhile isspace (sep @ tok @ rest) = tok @ rest"
    using assms(3,4) tok by (cases tok) (simp_all add: dropWhile_append2)
  have rest: "rest = [] \<or> \<not> \<not> isspace (hd rest)" using assms(7) by simp
  have "\<forall>c \<in> set tok. \<not> isspace c" by (rule assms(5))
  note span = span_digits [OF this rest]
  from assms(1) have "eofbit s = False" by (simp add: good_stream_def)
  with assms(1,2,4,6) skip span show ?thesis
    by (simp add: extract_word_def Let_def)
qed

lemma to_hex_digits:
  "\<forall>c \<in> set (to_hex v). hex_val c \<noteq> None" "number hex_val 16 (to_hex v) = unat v"
  using hex_digits [of "unat v"] by (simp_all add: to_hex_def)

lemma to_hex_neq_Nil [simp]: "to_hex v \<noteq> []"
  by (simp add: to_hex_def)

lemma to_hex_no_space: "\<forall>c \<in> set (to_hex v). \<not> isspace c"
  using to_hex_digits(1) [of v] hex_val_plain(1) by blast

lemma scan_llx_to_hex: "scan_llx (c_str (to_hex v)) = Inr v"
proof -
  let ?ds = "to_hex v"
  note ds = to_hex_digits [of v]
  obtain c cs where cs: "?ds = c # cs" by (cases ?ds) simp_all
  with ds(1) have c: "hex_val c \<noteq> None" by simp
  note plain = hex_val_plain [OF c]
  have "\<forall>c \<in> set ?ds. c \<noteq> CHR 0x00" using ds(1) hex_val_plain(4) by blast
  then have cstr: "c_str ?ds = ?ds" by (simp add: c_str_def takeWhile_eq_all_conv)
  have prefix: "take 2 ?ds \<noteq> ''0x''" "take 2 ?ds \<noteq> ''0X''"
  proof -
    show "take 2 ?ds \<noteq> ''0x''"
    proof (cases cs)
      case Nil
      with cs show ?thesis by simp
    next
      case (Cons c' cs')
      with cs ds(1) have "hex_val c' \<noteq> None" by simp
      from hex_val_plain(6) [OF this] cs Cons show ?thesis by simp
    qed
    show "take 2 ?ds \<noteq> ''0X''"
    proof (cases cs)
      case Nil
      with cs show ?thesis by simp
    next
      case (Cons c' cs')
      with cs ds(1) have "hex_val c' \<noteq> None" by simp
      from hex_val_plain(7) [OF this] cs Cons show ?thesis by simp
    qed
  qed
  have sign: "scan_sign (dropWhile isspace ?ds) = (False, ?ds)"
    using plain cs by (simp add: scan_sign_def)
  have span: "takeWhile (\<lambda>c. hex_val c \<noteq> None) ?ds = ?ds"
    using ds(1) by (simp add: takeWhile_eq_all_conv)
  have lt: "unat v < 2 ^ 64" using unsigned_less [of v, where 'a = nat] by simp
  have s2: "(if take 2 ?ds = ''0x'' \<or> take 2 ?ds = ''0X'' then drop 2 ?ds else ?ds) = ?ds"
    using prefix by simp
  show ?thesis
    unfolding scan_llx_def cstr sign Let_def prod.case s2 span ds(2)
    using lt by simp
qed

lemma emath_tokens_space:
  "\<exists>c cs. emath_tokens w hs @ CHR 0x0A # rest = c # cs \<and> isspace c"
  by (cases hs) (auto simp: isspace_def)

lemma emath_tokens_Cons:
  "\<exists>sep w'. emath_tokens w (h # hs) = sep @ h @ emath_tokens w' hs \<and> (\<forall>c \<in> set sep. isspace c)"
proof (cases "w + 1 + length h > 75")
  case True
  then have "emath_tokens w (h # hs) = [CHR 0x0A] @ h @ emath_tokens (length h) hs" by simp
  moreover have "\<forall>c \<in> set [CHR 0x0A]. isspace c" by (simp add: isspace_def)
  ultimately show ?thesis by blast
next
  case False
  then have "emath_tokens w (h # hs) = '' '' @ h @ emath_tokens (w + 1 + length h) hs" by simp
  moreover have "\<forall>c \<in> set '' ''. isspace c" by (simp add: isspace_def)
  ultimately show ?thesis by blast
qed

lemma emath_columns_read:
  assumes "good_stream s" and "chars s = emath_tokens w (map to_hex vs) @ CHR 0x0A # rest"
    and "vs \<noteq> [] \<longrightarrow> tt < 64"
  shows "emath_columns (length vs) tt word s acc =
           (if \<forall>v \<in> set vs. unat v < 2 ^ nat tt
            then Inr (foldl push_column acc vs, s\<lparr>chars := CHR 0x0A # rest\<rparr>)
            else Inl AssertBitsRange)"
  using assms
proof (induction vs arbitrary: w word s acc)
  case Nil
  then show ?case by (cases s) simp
next
  case (Cons v vs)
  from emath_tokens_Cons [of w "to_hex v" "map to_hex vs"] obtain sep w' where
    sep: "emath_tokens w (to_hex v # map to_hex vs) = sep @ to_hex v @ emath_tokens w' (map to_hex vs)"
      "\<forall>c \<in> set sep. isspace c" by blast
  from emath_tokens_space [of w' "map to_hex vs" rest] obtain c cs where
    c: "emath_tokens w' (map to_hex vs) @ CHR 0x0A # rest = c # cs" "isspace c" by blast
  let ?s' = "s\<lparr>chars := emath_tokens w' (map to_hex vs) @ CHR 0x0A # rest\<rparr>"
  have ew: "extract_word s word = (to_hex v, ?s')"
  proof (rule extract_word_token [OF Cons.prems(1) _ sep(2)])
    show "chars s = sep @ to_hex v @ emath_tokens w' (map to_hex vs) @ CHR 0x0A # rest"
      using Cons.prems(2) sep(1) by simp
    show "to_hex v \<noteq> []" by simp
    show "\<forall>c \<in> set (to_hex v). \<not> isspace c" by (rule to_hex_no_space)
    show "emath_tokens w' (map to_hex vs) @ CHR 0x0A # rest \<noteq> []" by simp
    show "isspace (hd (emath_tokens w' (map to_hex vs) @ CHR 0x0A # rest))"
      using c by simp
  qed
  have tt: "\<not> 64 \<le> tt" using Cons.prems(3) by simp
  have IH: "emath_columns (length vs) tt (to_hex v) ?s' (push_column acc v) =
           (if \<forall>v \<in> set vs. unat v < 2 ^ nat tt
            then Inr (foldl push_column (push_column acc v) vs, ?s'\<lparr>chars := CHR 0x0A # rest\<rparr>)
            else Inl AssertBitsRange)"
    using Cons.prems by (intro Cons.IH) (simp_all add: good_stream_def)
  show ?case
  proof (cases "unat v < 2 ^ nat tt")
    case True
    with ew tt IH show ?thesis by (simp add: scan_llx_to_hex)
  next
    case False
    with ew tt show ?thesis by (simp add: scan_llx_to_hex)
  qed
qed

lemma length_push_column [simp]: "length (push_column rows v) = length rows"
  by (simp add: push_column_def)

lemma push_column_nth:
  "r < length rows \<Longrightarrow>
     push_column rows v ! r = rows ! r @ [if bit v r then CHR ''1'' else CHR ''.'']"
  by (simp add: push_column_def nth_enumerate_eq)

lemma length_foldl_push_column [simp]: "length (foldl push_column rows vs) = length rows"
  by (induction vs arbitrary: rows) simp_all

lemma foldl_push_column_nth:
  "r < length rows \<Longrightarrow>
     foldl push_column rows vs ! r =
       rows ! r @ map (\<lambda>v. if bit v r then CHR ''1'' else CHR ''.'') vs"
  by (induction vs arbitrary: rows) (simp_all add: push_column_nth)

lemma foldl_push_column_replicate:
  "foldl push_column (replicate T []) vs =
     map (\<lambda>r. map (\<lambda>v. if bit v r then CHR ''1'' else CHR ''.'') vs) [0 ..< T]"
  by (rule nth_equalityI) (simp_all add: foldl_push_column_nth)

lemma column_bits_foldr:
  "column_bits rows tt c =
     foldr (\<lambda>r bits. push_bit 1 bits OR (if tested (rows ! r) c then 1 else 0)) [0 ..< nat tt] 0"
  by (simp add: column_bits_def foldl_conv_foldr)

lemma bit_shift_or:
  fixes x :: "64 word"
  shows "bit (push_bit 1 x OR (if b then 1 else 0)) j \<longleftrightarrow>
           (if j = 0 then b else j < 64 \<and> bit x (j - 1))"
  unfolding bit_or_iff bit_push_bit_iff
  by (cases j) (auto simp: bit_1_iff possible_bit_word)

lemma bit_column_from:
  "bit (foldr (\<lambda>r bits. push_bit 1 bits OR (if tested (rows ! r) c then 1 else 0))
          [k ..< T] (0 :: 64 word)) j \<longleftrightarrow>
     j < 64 \<and> k + j < T \<and> tested (rows ! (k + j)) c"
proof (induction "T - k" arbitrary: k j)
  case 0
  then show ?case by simp
next
  case (Suc m)
  then have lt: "k < T" and m: "m = T - Suc k" by simp_all
  from lt have upt: "[k ..< T] = k # [Suc k ..< T]" by (rule upt_conv_Cons)
  let ?rest = "foldr (\<lambda>r bits. push_bit 1 bits OR (if tested (rows ! r) c then 1 else 0))
          [Suc k ..< T] (0 :: 64 word)"
  have step: "foldr (\<lambda>r bits. push_bit 1 bits OR (if tested (rows ! r) c then 1 else 0))
          [k ..< T] (0 :: 64 word) = push_bit 1 ?rest OR (if tested (rows ! k) c then 1 else 0)"
    unfolding upt by (simp only: foldr.simps o_apply)
  show ?case
  proof (cases j)
    case 0
    with lt show ?thesis unfolding step bit_shift_or by simp
  next
    case (Suc j')
    with Suc.hyps(1) [OF m, of j'] show ?thesis
      unfolding step bit_shift_or by auto
  qed
qed

lemma bit_column_bits:
  "bit (column_bits rows tt c) r \<longleftrightarrow> r < 64 \<and> r < nat tt \<and> tested (rows ! r) c"
  unfolding column_bits_foldr using bit_column_from [of rows c 0 "nat tt" r] by simp

lemma unat_less_exp:
  fixes w :: "64 word"
  assumes "\<And>j. bit w j \<Longrightarrow> j < T"
  shows "unat w < 2 ^ T"
proof -
  have "take_bit T w = w"
    by (rule bit_word_eqI) (use assms in \<open>auto simp: bit_take_bit_iff\<close>)
  then have "unat w = take_bit T (unat w)"
    using unsigned_take_bit_eq [of T w, where 'a = nat] by simp
  then show ?thesis by (metis take_bit_nat_less_exp)
qed

lemma unat_column_bits: "unat (column_bits rows tt c) < 2 ^ nat tt"
  by (rule unat_less_exp) (simp add: bit_column_bits)

lemma istream_of_simps [simp]:
  "good_stream (istream_of text)" "chars (istream_of text) = text"
  "(istream_of text)\<lparr>chars := text'\<rparr> = istream_of text'"
  by (simp_all add: istream_of_def good_stream_def)

lemma strategy_from_file:
  "\<lparr>tests = tests s, t = t s, guaranteed_best = guaranteed_best s, belongs_in_file = BF_Yes\<rparr> =
     s\<lparr>belongs_in_file := BF_Yes\<rparr>"
  by (cases s) simp

lemma gb_of_int:
  "(if (if guaranteed_best s = GB_Yes then 1 else (0::int)) \<noteq> 0 then GB_Yes else GB_No) =
     guaranteed_best s"
  by (cases "guaranteed_best s") simp_all

lemma plain_read:
  assumes rows: "tests s = Inr rows" and T: "t s = int (length rows)"
    and rect: "\<forall>test \<in> set rows. length test = nat n \<and> set test \<subseteq> {CHR ''.'', CHR ''1''}"
    and n: "0 \<le> n" and rng: "int_range n" "int_range d" "int_range (t s)"
  shows "to_string n d s = Inr (header n d s @ concat (map (\<lambda>test. test @ [CHR 0x0A]) rows))"
    and "read_record (header_line n d s)
           (istream_of (concat (map (\<lambda>test. test @ [CHR 0x0A]) rows) @ CHR 0x0A # rest)) m =
         (case preserve_from_file m n d (s\<lparr>belongs_in_file := BF_Yes\<rparr>) of
            Inl e \<Rightarrow> Inl e
          | Inr m' \<Rightarrow> Inr (m', istream_of (CHR 0x0A # rest)))"
proof -
  let ?body = "concat (map (\<lambda>test. test @ [CHR 0x0A]) rows)"
  let ?s1 = "istream_of (?body @ CHR 0x0A # rest)"
  show "to_string n d s = Inr (header n d s @ ?body)"
    by (simp add: to_string_def rows)
  have "\<forall>c \<in> set (?body @ [CHR 0x0A]). c \<noteq> CHR ''e''" using rect by auto
  moreover obtain c cs where ccs: "?body @ CHR 0x0A # rest = c # cs"
    by (cases "?body @ CHR 0x0A # rest") simp_all
  ultimately have c: "c \<noteq> CHR ''e''" by (cases ?body) auto
  have get: "get ?s1 = (c, ?s1\<lparr>chars := cs\<rparr>)" and put: "putback (?s1\<lparr>chars := cs\<rparr>) c = ?s1"
    using get_putback [of ?s1 c cs] ccs by simp_all
  have "plain_rows (length rows) n (header_line n d s) ?s1 [] =
      Inr ([] @ rows, ?s1\<lparr>chars := CHR 0x0A # rest\<rparr>)"
    using rect n by (intro plain_rows_read) auto
  then have pr: "plain_rows (nat (t s)) n (header_line n d s) ?s1 [] =
      Inr (rows, istream_of (CHR 0x0A # rest))"
    by (simp add: T)
  show "read_record (header_line n d s) ?s1 m =
      (case preserve_from_file m n d (s\<lparr>belongs_in_file := BF_Yes\<rparr>) of
         Inl e \<Rightarrow> Inl e
       | Inr m' \<Rightarrow> Inr (m', istream_of (CHR 0x0A # rest)))"
    unfolding read_record_def scan_header_line [OF rng] get
    using c put pr rows T
    by (simp add: gb_of_int strategy_from_file [symmetric] del: istream_of_simps(3))
qed

subsection \<open>Packed records\<close>

lemma packed_read:
  assumes rng: "int_range n" "int_range d" "int_range (t s)"
    and T: "0 \<le> t s" "t s < 64" and len: "length vs = nat n"
  shows "read_record (header_line n d s)
           (istream_of (''emathgroup'' @ emath_tokens 10 (map to_hex vs) @ CHR 0x0A # rest)) m =
           (if \<forall>v \<in> set vs. unat v < 2 ^ nat (t s)
            then case preserve_from_file m n d
                        \<lparr>tests = Inr (decoded_rows vs (nat (t s))), t = t s,
                         guaranteed_best = guaranteed_best s, belongs_in_file = BF_Yes\<rparr> of
                   Inl e \<Rightarrow> Inl e
                 | Inr m' \<Rightarrow> Inr (m', istream_of (CHR 0x0A # rest))
            else Inl AssertBitsRange)"
proof -
  let ?toks = "emath_tokens 10 (map to_hex vs) @ CHR 0x0A # rest"
  let ?s1 = "istream_of (''emathgroup'' @ ?toks)"
  have get: "get ?s1 = (CHR ''e'', istream_of (''mathgroup'' @ ?toks))"
    and put: "putback (istream_of (''mathgroup'' @ ?toks)) CHR ''e'' = ?s1"
    using get_putback [of ?s1 "CHR ''e''" "''mathgroup'' @ ?toks"] by simp_all
  from emath_tokens_space [of 10 "map to_hex vs" rest] obtain c cs where
    c: "?toks = c # cs" "isspace c" by blast
  have "extract_word ?s1 [] = (''emathgroup'', ?s1\<lparr>chars := ?toks\<rparr>)"
  proof (rule extract_word_token [where sep = "[]"])
    show "good_stream ?s1" by simp
    show "chars ?s1 = [] @ ''emathgroup'' @ ?toks" by simp
    show "\<forall>c \<in> set ''emathgroup''. \<not> isspace c" by (simp add: isspace_def)
    show "isspace (hd ?toks)" using c by simp
  qed simp_all
  then have word: "extract_word ?s1 [] = (''emathgroup'', istream_of ?toks)" by simp
  have cols: "emath_columns (length vs) (t s) ''emathgroup'' (istream_of ?toks)
        (replicate (nat (t s)) []) =
      (if \<forall>v \<in> set vs. unat v < 2 ^ nat (t s)
       then Inr (foldl push_column (replicate (nat (t s)) []) vs,
                 istream_of (CHR 0x0A # rest))
       else Inl AssertBitsRange)"
    using T emath_columns_read [where s = "istream_of ?toks" and w = 10 and vs = vs
        and rest = rest and tt = "t s" and word = "''emathgroup''"
        and acc = "replicate (nat (t s)) []"]
    by simp
  show ?thesis
    unfolding read_record_def scan_header_line [OF rng] get prod.case sum.case put word
    using cols T len
    by (simp add: gb_of_int foldl_push_column_replicate decoded_rows_def)
qed

lemma decoded_rows_column_bits:
  assumes T: "t s = int (length rows)" and lt: "length rows \<le> 64"
    and rect: "\<forall>test \<in> set rows. length test = N \<and> set test \<subseteq> {CHR ''.'', CHR ''1''}"
  shows "decoded_rows (map (column_bits rows (t s)) [0 ..< N]) (nat (t s)) = rows"
  unfolding decoded_rows_def
proof (rule nth_equalityI)
  show "length (map (\<lambda>r. map (\<lambda>v. if bit v r then CHR ''1'' else CHR ''.'')
      (map (column_bits rows (t s)) [0 ..< N])) [0 ..< nat (t s)]) = length rows"
    using T by simp
next
  fix r
  assume "r < length (map (\<lambda>r. map (\<lambda>v. if bit v r then CHR ''1'' else CHR ''.'')
      (map (column_bits rows (t s)) [0 ..< N])) [0 ..< nat (t s)])"
  then have r: "r < length rows" using T by simp
  with rect have row: "length (rows ! r) = N" "set (rows ! r) \<subseteq> {CHR ''.'', CHR ''1''}"
    by (simp_all add: nth_mem)
  have "map (\<lambda>v. if bit v r then CHR ''1'' else CHR ''.'')
      (map (column_bits rows (t s)) [0 ..< N]) = rows ! r"
  proof (rule nth_equalityI)
    show "length (map (\<lambda>v. if bit v r then CHR ''1'' else CHR ''.'')
      (map (column_bits rows (t s)) [0 ..< N])) = length (rows ! r)"
      using row by simp
  next
    fix c
    assume "c < length (map (\<lambda>v. if bit v r then CHR ''1'' else CHR ''.'')
      (map (column_bits rows (t s)) [0 ..< N]))"
    then have c: "c < N" by simp
    with row have "rows ! r ! c \<in> {CHR ''.'', CHR ''1''}"
      using nth_mem [of c "rows ! r"] by blast
    moreover have "bit (column_bits rows (t s) c) r \<longleftrightarrow> rows ! r ! c = CHR ''1''"
      using r lt c row T by (simp add: bit_column_bits tested_def)
    ultimately show "map (\<lambda>v. if bit v r then CHR ''1'' else CHR ''.'')
      (map (column_bits rows (t s)) [0 ..< N]) ! c = rows ! r ! c"
      using c by auto
  qed
  with r T show "map (\<lambda>r. map (\<lambda>v. if bit v r then CHR ''1'' else CHR ''.'')
      (map (column_bits rows (t s)) [0 ..< N])) [0 ..< nat (t s)] ! r = rows ! r"
    by simp
qed

lemma emath_read:
  assumes rows: "tests s = Inr rows" and T: "t s = int (length rows)"
    and rect: "\<forall>test \<in> set rows. length test = nat n \<and> set test \<subseteq> {CHR ''.'', CHR ''1''}"
    and rng: "int_range n" "int_range d" "int_range (t s)"
    and lt: "length rows < 64"
  shows "to_emathgroup_string n d s =
           Inr (header n d s @ ''emathgroup'' @
                emath_tokens 10 (map (\<lambda>c. to_hex (column_bits rows (t s) c)) [0 ..< nat n]) @
                [CHR 0x0A])"
    and "read_record (header_line n d s)
           (istream_of (''emathgroup'' @
              emath_tokens 10 (map (\<lambda>c. to_hex (column_bits rows (t s) c)) [0 ..< nat n]) @
              CHR 0x0A # CHR 0x0A # rest)) m =
         (case preserve_from_file m n d (s\<lparr>belongs_in_file := BF_Yes\<rparr>) of
            Inl e \<Rightarrow> Inl e
          | Inr m' \<Rightarrow> Inr (m', istream_of (CHR 0x0A # CHR 0x0A # rest)))"
proof -
  let ?vs = "map (column_bits rows (t s)) [0 ..< nat n]"
  have ok: "\<not> (0 < n \<and> (length rows < nat (t s) \<or>
      (\<exists>r < nat (t s). length (rows ! r) + 1 < nat n)))"
    using T rect by (auto simp: nth_mem)
  show "to_emathgroup_string n d s =
      Inr (header n d s @ ''emathgroup'' @
           emath_tokens 10 (map (\<lambda>c. to_hex (column_bits rows (t s) c)) [0 ..< nat n]) @
           [CHR 0x0A])"
    using ok by (simp add: to_emathgroup_string_def rows)
  have all: "\<forall>v \<in> set ?vs. unat v < 2 ^ nat (t s)"
    by (simp add: unat_column_bits)
  have "read_record (header_line n d s)
      (istream_of (''emathgroup'' @ emath_tokens 10 (map to_hex ?vs) @
         CHR 0x0A # CHR 0x0A # rest)) m =
      (case preserve_from_file m n d
              \<lparr>tests = Inr (decoded_rows ?vs (nat (t s))), t = t s,
               guaranteed_best = guaranteed_best s, belongs_in_file = BF_Yes\<rparr> of
         Inl e \<Rightarrow> Inl e
       | Inr m' \<Rightarrow> Inr (m', istream_of (CHR 0x0A # CHR 0x0A # rest)))"
    using packed_read [OF rng, of ?vs "CHR 0x0A # rest" m] all T lt by simp
  moreover have "decoded_rows ?vs (nat (t s)) = rows"
    using lt by (intro decoded_rows_column_bits [OF T _ rect]) simp
  ultimately show "read_record (header_line n d s)
      (istream_of (''emathgroup'' @
         emath_tokens 10 (map (\<lambda>c. to_hex (column_bits rows (t s) c)) [0 ..< nat n]) @
         CHR 0x0A # CHR 0x0A # rest)) m =
      (case preserve_from_file m n d (s\<lparr>belongs_in_file := BF_Yes\<rparr>) of
         Inl e \<Rightarrow> Inl e
       | Inr m' \<Rightarrow> Inr (m', istream_of (CHR 0x0A # CHR 0x0A # rest)))"
    by (simp add: strategy_from_file [symmetric] rows comp_def)
qed

lemma bit_less_exp:
  fixes v :: "64 word"
  assumes "unat v < 2 ^ T" and "bit v j"
  shows "j < T"
proof -
  from assms(2) have "bit (unat v) j" by (simp add: bit_unsigned_iff)
  moreover from assms(1) have "take_bit T (unat v) = unat v"
    by (simp add: take_bit_nat_eq_self_iff)
  ultimately have "bit (take_bit T (unat v)) j" by simp
  then show ?thesis by (simp add: bit_take_bit_iff)
qed

lemma column_bits_decoded_rows:
  assumes "c < length vs" and "unat (vs ! c) < 2 ^ nat tt" and "tt \<le> 64"
  shows "column_bits (decoded_rows vs (nat tt)) tt c = vs ! c"
proof (rule bit_word_eqI)
  fix j
  assume "j < LENGTH(64)"
  then have j: "j < 64" by simp
  show "bit (column_bits (decoded_rows vs (nat tt)) tt c) j \<longleftrightarrow> bit (vs ! c) j"
  proof (cases "j < nat tt")
    case True
    then have "decoded_rows vs (nat tt) ! j =
        map (\<lambda>v. if bit v j then CHR ''1'' else CHR ''.'') vs"
      by (simp add: decoded_rows_def)
    with True j assms(1) show ?thesis
      by (simp add: bit_column_bits tested_def)
  next
    case False
    with bit_less_exp [OF assms(2), of j] have "\<not> bit (vs ! c) j" by blast
    with False show ?thesis by (simp add: bit_column_bits)
  qed
qed

lemma packed_read_wide:
  assumes rng: "int_range n" "int_range d" "int_range (t s)"
    and T: "64 \<le> t s" and len: "length vs = nat n" and n: "0 < n"
  shows "read_record (header_line n d s)
           (istream_of (''emathgroup'' @ emath_tokens 10 (map to_hex vs) @ CHR 0x0A # rest)) m =
         Inl UndefinedBehaviour"
proof -
  from len n obtain v vs' where vs: "vs = v # vs'" by (cases vs) auto
  let ?toks = "emath_tokens 10 (map to_hex vs) @ CHR 0x0A # rest"
  let ?s1 = "istream_of (''emathgroup'' @ ?toks)"
  have get: "get ?s1 = (CHR ''e'', istream_of (''mathgroup'' @ ?toks))"
    and put: "putback (istream_of (''mathgroup'' @ ?toks)) CHR ''e'' = ?s1"
    using get_putback [of ?s1 "CHR ''e''" "''mathgroup'' @ ?toks"] by simp_all
  from emath_tokens_space [of 10 "map to_hex vs" rest] obtain c cs where
    c: "?toks = c # cs" "isspace c" by blast
  have "extract_word ?s1 [] = (''emathgroup'', ?s1\<lparr>chars := ?toks\<rparr>)"
  proof (rule extract_word_token [where sep = "[]"])
    show "good_stream ?s1" by simp
    show "chars ?s1 = [] @ ''emathgroup'' @ ?toks" by simp
    show "\<forall>c \<in> set ''emathgroup''. \<not> isspace c" by (simp add: isspace_def)
    show "isspace (hd ?toks)" using c by simp
  qed simp_all
  then have word: "extract_word ?s1 [] = (''emathgroup'', istream_of ?toks)" by simp
  from emath_tokens_Cons [of 10 "to_hex v" "map to_hex vs'"] obtain sep w' where
    sep: "emath_tokens 10 (to_hex v # map to_hex vs') =
        sep @ to_hex v @ emath_tokens w' (map to_hex vs')"
      "\<forall>c \<in> set sep. isspace c" by blast
  from emath_tokens_space [of w' "map to_hex vs'" rest] obtain c' cs' where
    c': "emath_tokens w' (map to_hex vs') @ CHR 0x0A # rest = c' # cs'" "isspace c'" by blast
  have tok: "extract_word (istream_of ?toks) ''emathgroup'' =
      (to_hex v, (istream_of ?toks)\<lparr>chars := emath_tokens w' (map to_hex vs') @ CHR 0x0A # rest\<rparr>)"
  proof (rule extract_word_token [OF _ _ sep(2)])
    show "good_stream (istream_of ?toks)" by simp
    show "chars (istream_of ?toks) =
        sep @ to_hex v @ emath_tokens w' (map to_hex vs') @ CHR 0x0A # rest"
      using sep(1) vs by simp
    show "\<forall>c \<in> set (to_hex v). \<not> isspace c" by (rule to_hex_no_space)
    show "isspace (hd (emath_tokens w' (map to_hex vs') @ CHR 0x0A # rest))" using c' by simp
  qed simp_all
  have "emath_columns (nat n) (t s) ''emathgroup'' (istream_of ?toks)
      (replicate (nat (t s)) []) = Inl UndefinedBehaviour"
    using tok T len [symmetric] vs by (simp add: scan_llx_to_hex)
  then show ?thesis
    unfolding read_record_def scan_header_line [OF rng] get prod.case sum.case put word
    using T by simp
qed

subsection \<open>Whole files\<close>

lemma read_loop_end: "read_loop (istream_of []) seen_a_grid m = Inr m"
  by (subst read_loop.simps) (simp add: getline_def)

lemma read_loop_blank:
  "read_loop (istream_of (CHR 0x0A # rest)) seen_a_grid m = read_loop (istream_of rest) seen_a_grid m"
  by (subst read_loop.simps) (simp add: getline_def istream_of_def good_stream_def)

lemma read_loop_header:
  assumes "int_range n" and "int_range d" and "int_range (t s)"
  shows "read_loop (istream_of (header n d s @ text)) seen_a_grid m =
           (case read_record (header_line n d s) (istream_of text) m of
              Inl e \<Rightarrow> Inl e
            | Inr (m', s2) \<Rightarrow> read_loop s2 True m')"
proof -
  have "getline (istream_of (header_line n d s @ CHR 0x0A # text)) [] =
      (header_line n d s, (istream_of (header_line n d s @ CHR 0x0A # text))\<lparr>chars := text\<rparr>)"
    using header_line_plain [of n d s] by (intro getline_line) auto
  then have gl: "getline (istream_of (header n d s @ text)) [] =
      (header_line n d s, istream_of text)"
    by (simp add: header_def)
  have pre: "take 2 (header_line n d s) = ''N=''" by (simp add: header_line_def)
  have fb: "\<not> failbit (istream_of text)" by (simp add: istream_of_def)
  show ?thesis
    by (subst read_loop.simps) (simp add: gl pre fb)
qed

lemma preserve_from_file_installs:
  assumes "0 \<le> d" and "d \<le> n"
    and "isBetterThan s (case m (n, d) of None \<Rightarrow> worst_case_strategy n GB_No | Some cur \<Rightarrow> cur)"
    and "guaranteed_best (case m (n, d) of None \<Rightarrow> worst_case_strategy n GB_No | Some cur \<Rightarrow> cur)
           = GB_No"
    and "belongs_in_file s = BF_Yes"
  shows "preserve_from_file m n d s = Inr (m((n, d) \<mapsto> s))"
  using assms
  by (cases "m (n, d)")
    (auto simp: preserve_from_file_def map_insert_def overwrite_if_better_def)

lemma isBetterThan_from_file [simp]:
  "isBetterThan (s\<lparr>belongs_in_file := b\<rparr>) cur = isBetterThan s cur"
  by (simp add: isBetterThan_def)

lemma column_bits_low:
  assumes "\<And>r. r < 64 \<Longrightarrow> r < nat tt \<Longrightarrow> \<not> tested (rows ! r) c"
  shows "column_bits rows tt c = 0"
  by (rule bit_word_eqI) (use assms in \<open>auto simp: bit_column_bits\<close>)

lemma to_hex_0: "to_hex 0 = ''0''"
  by code_simp

lemma column_bits_dots:
  assumes "\<And>r. r < 64 \<Longrightarrow> r < nat tt \<Longrightarrow> rows ! r = replicate N CHR ''.''"
  shows "map (\<lambda>c. to_hex (column_bits rows tt c)) [0 ..< N] = replicate N ''0''"
proof -
  have "column_bits rows tt c = 0" for c
    by (rule column_bits_low) (use assms in \<open>simp add: tested_def\<close>)
  then show ?thesis by (simp add: map_replicate_const to_hex_0)
qed

lemma emath_tokens_66:
  "emath_tokens 10 (replicate 66 ''0'') =
     concat (replicate 32 '' 0'') @ [CHR 0x0A] @ ''0'' @ concat (replicate 33 '' 0'')"
  by code_simp

lemma emath_tokens_67:
  "emath_tokens 10 (replicate 67 ''0'') =
     concat (replicate 32 '' 0'') @ [CHR 0x0A] @ ''0'' @ concat (replicate 34 '' 0'')"
  by code_simp

subsection \<open>Round trip\<close>

text \<open>
  Claim C7, as the code has it. Let the strategy \<open>s\<close> have the rows \<open>rows\<close>, each of \<open>n\<close>
  characters \<open>.\<close> or \<open>1\<close>, let its \<open>t\<close> be their number, and let \<open>n\<close>, \<open>d\<close> and \<open>t\<close> be values of an
  \<open>int\<close>. Let the merge accept it into the table \<open>m\<close>: \<open>0 \<le> d \<le> n\<close>, and \<open>s\<close> is better than the
  entry of \<open>(n, d)\<close>, or than the worst case of \<open>n - 1\<close> tests when there is none, and that entry
  is not guaranteed best. Then a file that starts with the record of \<open>s\<close> as a plain grid,
  followed by the line feed of the writer, is read as follows: the table gets \<open>s\<close> under
  \<open>(n, d)\<close>, with the same rows, test count and guaranteed-best flag and marked as belonging
  in the file, and the rest of the file is read into that table. Written in the packed
  form, the same holds as long as there are fewer than 64 rows.
\<close>

theorem round_trip:
  assumes rows: "tests s = Inr rows" and T: "t s = int (length rows)"
    and rect: "\<forall>test \<in> set rows. length test = nat n \<and> set test \<subseteq> {CHR ''.'', CHR ''1''}"
    and rng: "int_range n" "int_range d" "int_range (t s)"
    and key: "0 \<le> d" "d \<le> n"
    and better: "isBetterThan s
        (case m (n, d) of None \<Rightarrow> worst_case_strategy n GB_No | Some cur \<Rightarrow> cur)"
    and not_best: "guaranteed_best
        (case m (n, d) of None \<Rightarrow> worst_case_strategy n GB_No | Some cur \<Rightarrow> cur) = GB_No"
  shows "(\<exists>text. to_string n d s = Inr text \<and>
            read_solutions_from_file (Some (text @ CHR 0x0A # rest)) m =
              read_loop (istream_of rest) True (m((n, d) \<mapsto> s\<lparr>belongs_in_file := BF_Yes\<rparr>))) \<and>
         (length rows < 64 \<longrightarrow>
           (\<exists>text. to_emathgroup_string n d s = Inr text \<and>
              read_solutions_from_file (Some (text @ CHR 0x0A # rest)) m =
                read_loop (istream_of rest) True (m((n, d) \<mapsto> s\<lparr>belongs_in_file := BF_Yes\<rparr>))))"
proof (intro conjI impI)
  from key have n: "0 \<le> n" by simp
  have merge: "preserve_from_file m n d (s\<lparr>belongs_in_file := BF_Yes\<rparr>) =
      Inr (m((n, d) \<mapsto> s\<lparr>belongs_in_file := BF_Yes\<rparr>))"
    using key better not_best by (intro preserve_from_file_installs) simp_all
  let ?m' = "m((n, d) \<mapsto> s\<lparr>belongs_in_file := BF_Yes\<rparr>)"
  let ?body = "concat (map (\<lambda>test. test @ [CHR 0x0A]) rows)"
  have "read_loop (istream_of (header n d s @ ?body @ CHR 0x0A # rest)) False m =
      read_loop (istream_of (CHR 0x0A # rest)) True ?m'"
    unfolding read_loop_header [OF rng] plain_read(2) [OF rows T rect n rng] merge by simp
  then have "read_solutions_from_file (Some ((header n d s @ ?body) @ CHR 0x0A # rest)) m =
      read_loop (istream_of rest) True ?m'"
    by (simp add: read_solutions_from_file_def read_loop_blank)
  with plain_read(1) [OF rows T rect n rng]
  show "\<exists>text. to_string n d s = Inr text \<and>
      read_solutions_from_file (Some (text @ CHR 0x0A # rest)) m =
        read_loop (istream_of rest) True ?m'"
    by blast
  assume lt: "length rows < 64"
  let ?toks = "emath_tokens 10 (map (\<lambda>c. to_hex (column_bits rows (t s) c)) [0 ..< nat n])"
  have "read_loop (istream_of (header n d s @ ''emathgroup'' @ ?toks @
        CHR 0x0A # CHR 0x0A # rest)) False m =
      read_loop (istream_of (CHR 0x0A # CHR 0x0A # rest)) True ?m'"
    unfolding read_loop_header [OF rng] emath_read(2) [OF rows T rect rng lt] merge by simp
  then have "read_solutions_from_file
      (Some ((header n d s @ ''emathgroup'' @ ?toks @ [CHR 0x0A]) @ CHR 0x0A # rest)) m =
      read_loop (istream_of rest) True ?m'"
    by (simp add: read_solutions_from_file_def read_loop_blank)
  with emath_read(1) [OF rows T rect rng lt]
  show "\<exists>text. to_emathgroup_string n d s = Inr text \<and>
      read_solutions_from_file (Some (text @ CHR 0x0A # rest)) m =
        read_loop (istream_of rest) True ?m'"
    by blast
qed

text \<open>
  With 65 rows the packed form loses the last row: two strategies for \<open>(67, 2)\<close> that differ
  in row 64 only are written as the same record. Both are better than the worst case of 66
  tests, but reading the record stops at the shift \<open>1uLL << 65\<close>. And a strategy of
  \<open>n - 1 = 2\<close> tests for \<open>(3, 1)\<close>, written as a plain grid, is not read back into the empty
  table: it is not better than the worst case, and the merge fails \<open>assert(overwritten)\<close>.
\<close>

theorem round_trip_counterexample:
  "to_emathgroup_string 67 2
     (example_wide (replicate 64 (replicate 67 CHR ''.'') @ [CHR ''1'' # replicate 66 CHR ''.''])) =
     Inr (''N=67 D=2 T=65 guaranteed_best=0'' @ [CHR 0x0A] @ ''emathgroup'' @
          concat (replicate 32 '' 0'') @ [CHR 0x0A] @ ''0'' @ concat (replicate 34 '' 0'') @
          [CHR 0x0A]) \<and>
   to_emathgroup_string 67 2
     (example_wide (replicate 64 (replicate 67 CHR ''.'') @ [replicate 67 CHR ''.''])) =
     Inr (''N=67 D=2 T=65 guaranteed_best=0'' @ [CHR 0x0A] @ ''emathgroup'' @
          concat (replicate 32 '' 0'') @ [CHR 0x0A] @ ''0'' @ concat (replicate 34 '' 0'') @
          [CHR 0x0A]) \<and>
   tests (example_wide (replicate 64 (replicate 67 CHR ''.'') @ [CHR ''1'' # replicate 66 CHR ''.''])) \<noteq>
     tests (example_wide (replicate 64 (replicate 67 CHR ''.'') @ [replicate 67 CHR ''.''])) \<and>
   isBetterThan
     (example_wide (replicate 64 (replicate 67 CHR ''.'') @ [CHR ''1'' # replicate 66 CHR ''.'']))
     (worst_case_strategy 67 GB_No) \<and>
   read_solutions_from_file
     (Some (''N=67 D=2 T=65 guaranteed_best=0'' @ [CHR 0x0A] @ ''emathgroup'' @
            concat (replicate 32 '' 0'') @ [CHR 0x0A] @ ''0'' @ concat (replicate 34 '' 0'') @
            [CHR 0x0A, CHR 0x0A]))
     Map.empty = Inl UndefinedBehaviour \<and>
   to_string 3 1 (example_wide [''1..'', ''.1.'']) =
     Inr (''N=3 D=1 T=2 guaranteed_best=0'' @ [CHR 0x0A] @ ''1..'' @ [CHR 0x0A] @ ''.1.'' @
          [CHR 0x0A]) \<and>
   read_solutions_from_file
     (Some (''N=3 D=1 T=2 guaranteed_best=0'' @ [CHR 0x0A] @ ''1..'' @ [CHR 0x0A] @ ''.1.'' @
            [CHR 0x0A, CHR 0x0A]))
     Map.empty = Inl AssertOverwritten"
proof -
  let ?dots = "replicate 64 (replicate 67 CHR ''.'')"
  let ?toks = "concat (replicate 32 '' 0'') @ [CHR 0x0A] @ ''0'' @ concat (replicate 34 '' 0'')"
  have hdr: "header 67 2 (example_wide (?dots @ [row])) =
      ''N=67 D=2 T=65 guaranteed_best=0'' @ [CHR 0x0A]" for row :: string
  proof -
    have "show_int 67 = ''67''" "show_int 2 = ''2''" "show_int 65 = ''65''" by code_simp+
    then show ?thesis
      by (simp add: header_def header_line_def example_wide_def)
  qed
  have cols: "map (\<lambda>c. to_hex (column_bits (?dots @ [row]) 65 c)) [0 ..< 67] =
      replicate 67 ''0''" for row :: string
    by (rule column_bits_dots) (simp add: nth_append)
  have ok: "\<not> (\<exists>r < 65. length ((?dots @ [row]) ! r) + 1 < 67)" if "length row = 67"
    for row :: string
  proof -
    have "length ((?dots @ [row]) ! r) = 67" if "r < 65" for r
      using that \<open>length row = 67\<close> by (cases "r < 64") (simp_all add: nth_append)
    then show ?thesis by auto
  qed
  have enc: "to_emathgroup_string 67 2 (example_wide (?dots @ [row])) =
      Inr (''N=67 D=2 T=65 guaranteed_best=0'' @ [CHR 0x0A] @ ''emathgroup'' @ ?toks @ [CHR 0x0A])"
    if "length row = 67" for row :: string
  proof -
    have "to_emathgroup_string 67 2 (example_wide (?dots @ [row])) =
        Inr (header 67 2 (example_wide (?dots @ [row])) @ ''emathgroup'' @
             emath_tokens 10 (map (\<lambda>c. to_hex (column_bits (?dots @ [row]) 65 c)) [0 ..< 67]) @
             [CHR 0x0A])"
      unfolding to_emathgroup_string_def using ok [OF that]
      by (simp add: example_wide_def)
    then show ?thesis
      unfolding hdr cols emath_tokens_67 by simp
  qed
  have rng: "int_range 67" "int_range 2"
    "int_range (t (example_wide (?dots @ [CHR ''1'' # replicate 66 CHR ''.''])))"
    by (simp_all add: int_range_def example_wide_def)
  have "read_record
      (header_line 67 2 (example_wide (?dots @ [CHR ''1'' # replicate 66 CHR ''.''])))
      (istream_of (''emathgroup'' @ emath_tokens 10 (map to_hex (replicate 67 0)) @
         CHR 0x0A # [CHR 0x0A])) Map.empty = Inl UndefinedBehaviour"
    by (rule packed_read_wide) (simp_all add: int_range_def example_wide_def)
  with read_loop_header [OF rng, of "''emathgroup'' @
      emath_tokens 10 (map to_hex (replicate 67 0)) @ CHR 0x0A # [CHR 0x0A]" False Map.empty]
  have "read_loop (istream_of (header 67 2
        (example_wide (?dots @ [CHR ''1'' # replicate 66 CHR ''.''])) @
      ''emathgroup'' @ emath_tokens 10 (replicate 67 ''0'') @ [CHR 0x0A, CHR 0x0A]))
      False Map.empty = Inl UndefinedBehaviour"
    by (simp add: to_hex_0)
  then have wide: "read_solutions_from_file
     (Some (''N=67 D=2 T=65 guaranteed_best=0'' @ [CHR 0x0A] @ ''emathgroup'' @ ?toks @
            [CHR 0x0A, CHR 0x0A])) Map.empty = Inl UndefinedBehaviour"
    unfolding hdr emath_tokens_67 read_solutions_from_file_def by simp
  let ?s = "example_wide [''1..'', ''.1.'']"
  have rows3: "tests ?s = Inr [''1..'', ''.1.'']" and T3: "t ?s = int (length [''1..'', ''.1.''])"
    and rect3: "\<forall>test \<in> set [''1..'', ''.1.'']. length test = nat 3 \<and>
        set test \<subseteq> {CHR ''.'', CHR ''1''}"
    and n3: "(0::int) \<le> 3" and rng3: "int_range 3" "int_range 1" "int_range (t ?s)"
    by (simp_all add: example_wide_def int_range_def)
  have hdr3: "header 3 1 ?s = ''N=3 D=1 T=2 guaranteed_best=0'' @ [CHR 0x0A]"
  proof -
    have "show_int 3 = ''3''" "show_int 1 = ''1''" "show_int 2 = ''2''" by code_simp+
    then show ?thesis by (simp add: header_def header_line_def example_wide_def)
  qed
  have enc3: "to_string 3 1 ?s =
      Inr (''N=3 D=1 T=2 guaranteed_best=0'' @ [CHR 0x0A] @ ''1..'' @ [CHR 0x0A] @ ''.1.'' @
           [CHR 0x0A])"
    using plain_read(1) [OF rows3 T3 rect3 n3 rng3] unfolding hdr3 by simp
  have merge3: "preserve_from_file Map.empty 3 1 (?s\<lparr>belongs_in_file := BF_Yes\<rparr>) =
      Inl AssertOverwritten"
    by (simp add: preserve_from_file_def map_insert_def overwrite_if_better_def isBetterThan_def
        worst_case_strategy_def example_wide_def)
  have "read_loop (istream_of (header 3 1 ?s @
        concat (map (\<lambda>test. test @ [CHR 0x0A]) [''1..'', ''.1.'']) @ CHR 0x0A # []))
      False Map.empty = Inl AssertOverwritten"
    unfolding read_loop_header [OF rng3] plain_read(2) [OF rows3 T3 rect3 n3 rng3] merge3
    by simp
  then have narrow: "read_solutions_from_file
     (Some (''N=3 D=1 T=2 guaranteed_best=0'' @ [CHR 0x0A] @ ''1..'' @ [CHR 0x0A] @ ''.1.'' @
            [CHR 0x0A, CHR 0x0A])) Map.empty = Inl AssertOverwritten"
    unfolding hdr3 read_solutions_from_file_def by simp
  have better: "isBetterThan
     (example_wide (?dots @ [CHR ''1'' # replicate 66 CHR ''.''])) (worst_case_strategy 67 GB_No)"
    by (simp add: isBetterThan_def example_wide_def worst_case_strategy_def)
  have differ: "tests (example_wide (?dots @ [CHR ''1'' # replicate 66 CHR ''.''])) \<noteq>
     tests (example_wide (?dots @ [replicate 67 CHR ''.'']))"
  proof -
    have "replicate 67 CHR ''.'' = CHR ''.'' # replicate 66 CHR ''.''"
      by (simp add: numeral_eq_Suc)
    then show ?thesis by (simp add: example_wide_def)
  qed
  from enc [of "CHR ''1'' # replicate 66 CHR ''.''"] enc [of "replicate 67 CHR ''.''"]
    differ better wide enc3 narrow
  show ?thesis by (simp only: length_Cons length_replicate) simp
qed

text \<open>
  The round trip of the four-row strategy for six animals and three wolves, through a file
  that holds nothing else, into the empty table.
\<close>

theorem round_trip_witness:
  "(\<exists>text. to_string 6 3 example_6_3 = Inr text \<and>
      read_solutions_from_file (Some (text @ [CHR 0x0A])) Map.empty =
        Inr [(6, 3) \<mapsto> example_6_3\<lparr>belongs_in_file := BF_Yes\<rparr>]) \<and>
   (\<exists>text. to_emathgroup_string 6 3 example_6_3 = Inr text \<and>
      read_solutions_from_file (Some (text @ [CHR 0x0A])) Map.empty =
        Inr [(6, 3) \<mapsto> example_6_3\<lparr>belongs_in_file := BF_Yes\<rparr>])"
proof -
  have rows: "tests example_6_3 = Inr [''1111..'', ''11..11'', ''1.1.1.'', ''.11..1'']"
    and T: "t example_6_3 = int (length [''1111..'', ''11..11'', ''1.1.1.'', ''.11..1''])"
    and rng: "int_range 6" "int_range 3" "int_range (t example_6_3)"
    and key: "(0::int) \<le> 3" "(3::int) \<le> 6"
    by (simp_all add: example_6_3_def int_range_def)
  have rect: "\<forall>test \<in> set [''1111..'', ''11..11'', ''1.1.1.'', ''.11..1''].
      length test = nat 6 \<and> set test \<subseteq> {CHR ''.'', CHR ''1''}"
    by simp
  have better: "isBetterThan example_6_3
      (case Map.empty (6, 3) of None \<Rightarrow> worst_case_strategy 6 GB_No | Some cur \<Rightarrow> cur)"
    and not_best: "guaranteed_best
      (case Map.empty (6, 3) of None \<Rightarrow> worst_case_strategy 6 GB_No | Some cur \<Rightarrow> cur) = GB_No"
    by (simp_all add: isBetterThan_def example_6_3_def worst_case_strategy_def)
  from round_trip [OF rows T rect rng key better not_best, of "[]"] show ?thesis
    by (simp add: read_loop_end)
qed

subsection \<open>Capacity of the packed form\<close>

text \<open>
  Claim C8, as the code has it. Take a file that starts with a packed record whose header
  declares \<open>t\<close> tests with \<open>0 \<le> t < 64\<close> and whose \<open>n\<close> columns are the numerals of the 64-bit
  values \<open>vs\<close>. If some value is \<open>2 ^ t\<close> or more, reading fails at the assertion
  \<open>bits < (1uLL << t)\<close>. If every value is below \<open>2 ^ t\<close>, the record is decoded to a strategy of
  \<open>t\<close> rows whose columns are the values \<open>vs\<close> again, and that strategy is handed to the merge:
  reading goes on with the rest of the file when the merge accepts it, and fails with the
  failure of the merge otherwise. The merge accepts it when \<open>0 \<le> d \<le> n\<close>, the strategy is
  better than the entry of \<open>(n, d)\<close>, or than the worst case when there is none, and that
  entry is not guaranteed best; the table then holds the strategy under \<open>(n, d)\<close>.
\<close>

theorem packed_capacity:
  assumes rng: "int_range n" "int_range d" "int_range (t s)"
    and T: "0 \<le> t s" "t s < 64" and len: "length vs = nat n"
  shows "let file = Some (header n d s @ ''emathgroup'' @ emath_tokens 10 (map to_hex vs) @
                          CHR 0x0A # rest);
             strategy = \<lparr>tests = Inr (decoded_rows vs (nat (t s))), t = t s,
                         guaranteed_best = guaranteed_best s, belongs_in_file = BF_Yes\<rparr>;
             cur = (case m (n, d) of None \<Rightarrow> worst_case_strategy n GB_No | Some cur \<Rightarrow> cur)
         in
           ((\<exists>v \<in> set vs. 2 ^ nat (t s) \<le> unat v) \<longrightarrow>
              read_solutions_from_file file m = Inl AssertBitsRange) \<and>
           ((\<forall>v \<in> set vs. unat v < 2 ^ nat (t s)) \<longrightarrow>
              read_solutions_from_file file m =
                (case preserve_from_file m n d strategy of
                   Inl e \<Rightarrow> Inl e
                 | Inr m' \<Rightarrow> read_loop (istream_of rest) True m') \<and>
              (\<forall>c < length vs. column_bits (decoded_rows vs (nat (t s))) (t s) c = vs ! c) \<and>
              (0 \<le> d \<and> d \<le> n \<and> isBetterThan strategy cur \<and> guaranteed_best cur = GB_No \<longrightarrow>
                 read_solutions_from_file file m =
                   read_loop (istream_of rest) True (m((n, d) \<mapsto> strategy))))"
proof -
  let ?text = "''emathgroup'' @ emath_tokens 10 (map to_hex vs) @ CHR 0x0A # rest"
  let ?file = "Some (header n d s @ ?text)"
  let ?strategy = "\<lparr>tests = Inr (decoded_rows vs (nat (t s))), t = t s,
                     guaranteed_best = guaranteed_best s, belongs_in_file = BF_Yes\<rparr>"
  let ?cur = "case m (n, d) of None \<Rightarrow> worst_case_strategy n GB_No | Some cur \<Rightarrow> cur"
  note grid = packed_read [OF rng T len, of rest m]
  have bad: "read_solutions_from_file ?file m = Inl AssertBitsRange"
    if "\<exists>v \<in> set vs. 2 ^ nat (t s) \<le> unat v"
  proof -
    from that have "\<not> (\<forall>v \<in> set vs. unat v < 2 ^ nat (t s))" by (simp add: not_less)
    with grid have "read_record (header_line n d s) (istream_of ?text) m = Inl AssertBitsRange"
      by simp
    with read_loop_header [OF rng, of ?text False m] show ?thesis
      by (simp add: read_solutions_from_file_def)
  qed
  have fine: "read_solutions_from_file ?file m =
      (case preserve_from_file m n d ?strategy of
         Inl e \<Rightarrow> Inl e
       | Inr m' \<Rightarrow> read_loop (istream_of rest) True m')"
    if "\<forall>v \<in> set vs. unat v < 2 ^ nat (t s)"
  proof -
    from that grid have "read_record (header_line n d s) (istream_of ?text) m =
        (case preserve_from_file m n d ?strategy of
           Inl e \<Rightarrow> Inl e
         | Inr m' \<Rightarrow> Inr (m', istream_of (CHR 0x0A # rest)))"
      by simp
    with read_loop_header [OF rng, of ?text False m] show ?thesis
      by (cases "preserve_from_file m n d ?strategy")
        (simp_all add: read_solutions_from_file_def read_loop_blank)
  qed
  have cols: "column_bits (decoded_rows vs (nat (t s))) (t s) c = vs ! c"
    if "\<forall>v \<in> set vs. unat v < 2 ^ nat (t s)" and "c < length vs" for c
  proof -
    from that have "unat (vs ! c) < 2 ^ nat (t s)" by simp
    from column_bits_decoded_rows [OF that(2) this] T show ?thesis by simp
  qed
  have merged: "read_solutions_from_file ?file m =
      read_loop (istream_of rest) True (m((n, d) \<mapsto> ?strategy))"
    if "\<forall>v \<in> set vs. unat v < 2 ^ nat (t s)"
      and "0 \<le> d \<and> d \<le> n \<and> isBetterThan ?strategy ?cur \<and> guaranteed_best ?cur = GB_No"
  proof -
    from that(2) have "preserve_from_file m n d ?strategy = Inr (m((n, d) \<mapsto> ?strategy))"
      by (intro preserve_from_file_installs) simp_all
    with fine [OF that(1)] show ?thesis by simp
  qed
  from bad fine cols merged show ?thesis unfolding Let_def by blast
qed

text \<open>
  With 64 tests in the header every column value is below \<open>2 ^ 64\<close>, but the record that the
  writer produces for 64 rows without a positive test and 66 animals is not read: the bound
  of the assertion is the shift \<open>1uLL << 64\<close>, which is undefined. And the record of two tests
  for \<open>(3, 1)\<close> with the columns 0, 1 and 3, all below \<open>2 ^ 2\<close>, is decoded but not read into the
  empty table: two tests are not better than the worst case for three animals.
\<close>

theorem packed_capacity_counterexample:
  "unat (0 :: 64 word) < 2 ^ 64 \<and>
   to_emathgroup_string 66 2 (example_wide (replicate 64 (replicate 66 CHR ''.''))) =
     Inr (''N=66 D=2 T=64 guaranteed_best=0'' @ [CHR 0x0A] @ ''emathgroup'' @
          concat (replicate 32 '' 0'') @ [CHR 0x0A] @ ''0'' @ concat (replicate 33 '' 0'') @
          [CHR 0x0A]) \<and>
   isBetterThan (example_wide (replicate 64 (replicate 66 CHR ''.'')))
     (worst_case_strategy 66 GB_No) \<and>
   read_solutions_from_file
     (Some (''N=66 D=2 T=64 guaranteed_best=0'' @ [CHR 0x0A] @ ''emathgroup'' @
            concat (replicate 32 '' 0'') @ [CHR 0x0A] @ ''0'' @ concat (replicate 33 '' 0'') @
            [CHR 0x0A, CHR 0x0A]))
     Map.empty = Inl UndefinedBehaviour \<and>
   unat (0 :: 64 word) < 2 ^ 2 \<and> unat (1 :: 64 word) < 2 ^ 2 \<and> unat (3 :: 64 word) < 2 ^ 2 \<and>
   read_solutions_from_file
     (Some (''N=3 D=1 T=2 guaranteed_best=0'' @ [CHR 0x0A] @ ''emathgroup 0 1 3'' @
            [CHR 0x0A, CHR 0x0A]))
     Map.empty = Inl AssertOverwritten"
proof -
  let ?s = "example_wide (replicate 64 (replicate 66 CHR ''.''))"
  let ?toks = "concat (replicate 32 '' 0'') @ [CHR 0x0A] @ ''0'' @ concat (replicate 33 '' 0'')"
  have hdr: "header 66 2 ?s = ''N=66 D=2 T=64 guaranteed_best=0'' @ [CHR 0x0A]"
  proof -
    have "show_int 66 = ''66''" "show_int 2 = ''2''" "show_int 64 = ''64''" by code_simp+
    then show ?thesis by (simp add: header_def header_line_def example_wide_def)
  qed
  have cols: "map (\<lambda>c. to_hex (column_bits (replicate 64 (replicate 66 CHR ''.'')) 64 c)) [0 ..< 66] =
      replicate 66 ''0''"
    by (rule column_bits_dots) simp
  have enc: "to_emathgroup_string 66 2 ?s =
      Inr (''N=66 D=2 T=64 guaranteed_best=0'' @ [CHR 0x0A] @ ''emathgroup'' @ ?toks @ [CHR 0x0A])"
  proof -
    have "to_emathgroup_string 66 2 ?s =
        Inr (header 66 2 ?s @ ''emathgroup'' @
             emath_tokens 10 (map (\<lambda>c. to_hex (column_bits (replicate 64 (replicate 66 CHR ''.'')) 64 c))
               [0 ..< 66]) @ [CHR 0x0A])"
      unfolding to_emathgroup_string_def by (simp add: example_wide_def)
    then show ?thesis unfolding hdr cols emath_tokens_66 by simp
  qed
  have rng: "int_range 66" "int_range 2" "int_range (t ?s)"
    by (simp_all add: int_range_def example_wide_def)
  have "read_record (header_line 66 2 ?s)
      (istream_of (''emathgroup'' @ emath_tokens 10 (map to_hex (replicate 66 0)) @
         CHR 0x0A # [CHR 0x0A])) Map.empty = Inl UndefinedBehaviour"
    by (rule packed_read_wide) (simp_all add: int_range_def example_wide_def)
  with read_loop_header [OF rng, of "''emathgroup'' @
      emath_tokens 10 (map to_hex (replicate 66 0)) @ CHR 0x0A # [CHR 0x0A]" False Map.empty]
  have "read_loop (istream_of (header 66 2 ?s @
      ''emathgroup'' @ emath_tokens 10 (replicate 66 ''0'') @ [CHR 0x0A, CHR 0x0A]))
      False Map.empty = Inl UndefinedBehaviour"
    by (simp add: to_hex_0)
  then have wide: "read_solutions_from_file
     (Some (''N=66 D=2 T=64 guaranteed_best=0'' @ [CHR 0x0A] @ ''emathgroup'' @ ?toks @
            [CHR 0x0A, CHR 0x0A]))
     Map.empty = Inl UndefinedBehaviour"
    unfolding hdr emath_tokens_66 read_solutions_from_file_def by simp
  let ?s3 = "example_wide [''...'', ''...'']"
  have hdr3: "header 3 1 ?s3 = ''N=3 D=1 T=2 guaranteed_best=0'' @ [CHR 0x0A]"
  proof -
    have "show_int 3 = ''3''" "show_int 1 = ''1''" "show_int 2 = ''2''" by code_simp+
    then show ?thesis by (simp add: header_def header_line_def example_wide_def)
  qed
  have toks3: "emath_tokens 10 (map to_hex [0, 1, 3]) = '' 0 1 3''" by code_simp
  have rng3: "int_range 3" "int_range 1" "int_range (t ?s3)"
    and T3: "0 \<le> t ?s3" "t ?s3 < 64"
    by (simp_all add: int_range_def example_wide_def)
  have "read_record (header_line 3 1 ?s3)
      (istream_of (''emathgroup'' @ emath_tokens 10 (map to_hex [0, 1, 3]) @ CHR 0x0A # [CHR 0x0A]))
      Map.empty = Inl AssertOverwritten"
    using packed_read [OF rng3 T3, of "[0, 1, 3]" "[CHR 0x0A]" Map.empty]
    by (simp add: preserve_from_file_def map_insert_def overwrite_if_better_def isBetterThan_def
        worst_case_strategy_def example_wide_def)
  with read_loop_header [OF rng3, of "''emathgroup'' @
      emath_tokens 10 (map to_hex [0, 1, 3]) @ CHR 0x0A # [CHR 0x0A]" False Map.empty]
  have "read_loop (istream_of (header 3 1 ?s3 @ ''emathgroup'' @
        emath_tokens 10 (map to_hex [0, 1, 3]) @ [CHR 0x0A, CHR 0x0A])) False Map.empty =
      Inl AssertOverwritten"
    by (simp add: preserve_from_file_def map_insert_def overwrite_if_better_def isBetterThan_def
        worst_case_strategy_def example_wide_def)
  then have narrow: "read_solutions_from_file
     (Some (''N=3 D=1 T=2 guaranteed_best=0'' @ [CHR 0x0A] @ ''emathgroup 0 1 3'' @
            [CHR 0x0A, CHR 0x0A]))
     Map.empty = Inl AssertOverwritten"
    unfolding hdr3 toks3 read_solutions_from_file_def by simp
  have better: "isBetterThan ?s (worst_case_strategy 66 GB_No)"
    by (simp add: isBetterThan_def example_wide_def worst_case_strategy_def)
  from enc better wide narrow show ?thesis by simp
qed

text \<open>
  Two tests and four columns, read into the empty table: the value 4 is refused, the values
  0, 1, 3 and 2 give the rows \<open>.11.\<close> and \<open>..11\<close> under \<open>(4, 1)\<close>.
\<close>

theorem packed_capacity_witness:
  "read_solutions_from_file
     (Some (header 4 1 (example_wide [''....'', ''....'']) @ ''emathgroup'' @
            emath_tokens 10 (map to_hex [0, 1, 4, 2]) @ [CHR 0x0A, CHR 0x0A]))
     Map.empty = Inl AssertBitsRange \<and>
   read_solutions_from_file
     (Some (header 4 1 (example_wide [''....'', ''....'']) @ ''emathgroup'' @
            emath_tokens 10 (map to_hex [0, 1, 3, 2]) @ [CHR 0x0A, CHR 0x0A]))
     Map.empty =
     Inr [(4, 1) \<mapsto> \<lparr>tests = Inr [''.11.'', ''..11''], t = 2, guaranteed_best = GB_No,
                       belongs_in_file = BF_Yes\<rparr>] \<and>
   map (column_bits [''.11.'', ''..11''] 2) [0, 1, 2, 3] = [0, 1, 3, 2]"
proof -
  let ?s = "example_wide [''....'', ''....'']"
  have rng: "int_range 4" "int_range 1" "int_range (t ?s)"
    and T: "0 \<le> t ?s" "t ?s < 64"
    by (simp_all add: example_wide_def int_range_def)
  have t2: "nat (t ?s) = 2" "t ?s = 2" "guaranteed_best ?s = GB_No"
    by (simp_all add: example_wide_def)
  have dec: "decoded_rows [0, 1, 3, 2] 2 = [''.11.'', ''..11'']" by code_simp
  have bad: "\<exists>v \<in> set [0, 1, 4, 2 :: 64 word]. 2 ^ nat (t ?s) \<le> unat v"
    by (simp add: example_wide_def)
  have fine: "\<forall>v \<in> set [0, 1, 3, 2 :: 64 word]. unat v < 2 ^ nat (t ?s)"
    by (simp add: example_wide_def)
  have len4: "length [0, 1, 4, 2 :: 64 word] = nat 4"
    and len3: "length [0, 1, 3, 2 :: 64 word] = nat 4"
    by simp_all
  have accepted: "0 \<le> (1::int) \<and> (1::int) \<le> 4 \<and>
      isBetterThan \<lparr>tests = Inr (decoded_rows [0, 1, 3, 2] (nat (t ?s))), t = t ?s,
          guaranteed_best = guaranteed_best ?s, belongs_in_file = BF_Yes\<rparr>
        (case Map.empty (4, 1) of None \<Rightarrow> worst_case_strategy 4 GB_No | Some cur \<Rightarrow> cur) \<and>
      guaranteed_best
        (case Map.empty (4, 1) of None \<Rightarrow> worst_case_strategy 4 GB_No | Some cur \<Rightarrow> cur) = GB_No"
    by (simp add: isBetterThan_def worst_case_strategy_def example_wide_def)
  from packed_capacity [OF rng T len4, of "[CHR 0x0A]" Map.empty] bad
  have a: "read_solutions_from_file
     (Some (header 4 1 ?s @ ''emathgroup'' @
            emath_tokens 10 (map to_hex [0, 1, 4, 2]) @ [CHR 0x0A, CHR 0x0A]))
     Map.empty = Inl AssertBitsRange"
    unfolding Let_def by blast
  from packed_capacity [OF rng T len3, of "[CHR 0x0A]" Map.empty] fine accepted
  have b: "read_solutions_from_file
     (Some (header 4 1 ?s @ ''emathgroup'' @
            emath_tokens 10 (map to_hex [0, 1, 3, 2]) @ [CHR 0x0A, CHR 0x0A]))
     Map.empty =
     read_loop (istream_of [CHR 0x0A]) True
       (Map.empty((4, 1) \<mapsto> \<lparr>tests = Inr (decoded_rows [0, 1, 3, 2] (nat (t ?s))), t = t ?s,
          guaranteed_best = guaranteed_best ?s, belongs_in_file = BF_Yes\<rparr>))"
    and c: "\<forall>c < length [0, 1, 3, 2 :: 64 word].
      column_bits (decoded_rows [0, 1, 3, 2] (nat (t ?s))) (t ?s) c = [0, 1, 3, 2] ! c"
    unfolding Let_def by blast+
  from c have "\<forall>c < 4. column_bits [''.11.'', ''..11''] 2 c = [0, 1, 3, 2 :: 64 word] ! c"
    by (simp add: t2 dec)
  then have "map (column_bits [''.11.'', ''..11''] 2) [0, 1, 2, 3] = [0, 1, 3, 2]"
    by (simp add: all_less_upt)
  with a b [unfolded t2] show ?thesis by (simp add: dec read_loop_blank read_loop_end)
qed

end
